theory Spec2Isabelle
  imports Complex_Main "HOL-Library.AList" "HOL-Library.Sublist"
begin

text \<open>
  The blood-report analyzer: the server's response normalizer (\<open>safeParseJSON\<close>) and its
  endpoint \<open>POST /api/analyze\<close> with the temporary file it stores and releases, and the
  category summaries of the client's report renderer (\<open>ReportPreview\<close>). Functions of
  the platform (\<open>JSON.parse\<close>, \<open>path.extname\<close>, \<open>toLowerCase\<close>, the clock) are
  parameters of the model; reference models of the first two serve the evaluations.
\<close>

section \<open>Text\<close>

text \<open>
  A JavaScript string is a sequence of UTF-16 code units; a code unit is modelled by its
  number. \<open>js\<close> turns an ASCII literal into such a sequence.
\<close>

type_synonym jstring = "nat list"

definition js :: "string \<Rightarrow> jstring" where
  "js s = map of_char s"

abbreviation LBRACE :: nat where "LBRACE \<equiv> 123"
abbreviation RBRACE :: nat where "RBRACE \<equiv> 125"
abbreviation LBRACKET :: nat where "LBRACKET \<equiv> 91"
abbreviation RBRACKET :: nat where "RBRACKET \<equiv> 93"
abbreviation COMMA :: nat where "COMMA \<equiv> 44"
abbreviation COLON :: nat where "COLON \<equiv> 58"
abbreviation SQUOTE :: nat where "SQUOTE \<equiv> 39"
abbreviation DQUOTE :: nat where "DQUOTE \<equiv> 34"
abbreviation BACKSLASH :: nat where "BACKSLASH \<equiv> 92"
abbreviation SPACE :: nat where "SPACE \<equiv> 32"
abbreviation CR :: nat where "CR \<equiv> 13"
abbreviation LF :: nat where "LF \<equiv> 10"
abbreviation DOT :: nat where "DOT \<equiv> 46"
abbreviation SLASH :: nat where "SLASH \<equiv> 47"

text \<open>
  The class \<open>\s\<close> of a JavaScript regular expression, which is also what
  \<open>String.prototype.trim\<close> strips: TAB, LF, VT, FF, CR, SPACE, U+00A0, U+1680,
  U+2000 to U+200A, U+2028, U+2029, U+202F, U+205F, U+3000 and U+FEFF.
\<close>

definition is_space :: "nat \<Rightarrow> bool" where
  "is_space c \<longleftrightarrow>
     (if c < 128 then (9 \<le> c \<and> c \<le> 13) \<or> c = 32
      else c = 160 \<or> c = 5760 \<or> (8192 \<le> c \<and> c \<le> 8202) \<or>
           c = 8232 \<or> c = 8233 \<or> c = 8239 \<or> c = 8287 \<or> c = 12288 \<or> c = 65279)"

section \<open>JSON values\<close>

text \<open>
  The values \<open>JSON.parse\<close> produces. An object is the list of its own properties in
  insertion order, each key once; a number is the exact value of its literal.
\<close>

datatype json =
    JNull
  | JBool bool
  | JNum rat
  | JStr jstring
  | JArr "json list"
  | JObj "(jstring \<times> json) list"

text \<open>
  Truthiness, as \<open>if (parsed)\<close> and \<open>||\<close> test it. A number is falsy when its
  double is zero: the literal is zero, or it rounds to zero (magnitude at most
  \<open>2 ^ -1075\<close>, half the least subnormal, ties going to even).
\<close>

fun truthy :: "json \<Rightarrow> bool" where
  "truthy JNull = False"
| "truthy (JBool b) = b"
| "truthy (JNum q) = (\<bar>q\<bar> > 1 / 2 ^ 1075)"
| "truthy (JStr s) = (s \<noteq> [])"
| "truthy (JArr xs) = True"
| "truthy (JObj kvs) = True"

section \<open>A reference model of JSON.parse\<close>

text \<open>
  \<open>JSON.parse\<close> belongs to the platform, not to the repository: \<open>safeParseJSON\<close>
  below takes it as a parameter, and the general theorems hold for every parser. The
  model here follows the JSON grammar (ECMA-404) and is what the concrete evaluations
  use. It returns \<open>None\<close> where \<open>JSON.parse\<close> throws a SyntaxError. A key that occurs
  twice keeps its first place and its last value. The recursion is on fuel, and one more
  than the length of the text is enough: no larger fuel parses more (\<open>JSON_parse_fuel\<close>
  below). The engine's limit on nesting depth is not modelled.
\<close>

text \<open>The whitespace of JSON: space, TAB, LF and CR.\<close>

definition is_json_ws :: "nat \<Rightarrow> bool" where
  "is_json_ws c \<longleftrightarrow> c = 32 \<or> c = 9 \<or> c = 10 \<or> c = 13"

definition skip_ws :: "jstring \<Rightarrow> jstring" where
  "skip_ws s = dropWhile is_json_ws s"

definition is_digit :: "nat \<Rightarrow> bool" where
  "is_digit c \<longleftrightarrow> 48 \<le> c \<and> c \<le> 57"

text \<open>
  Strings. \<open>parse_string_body\<close> reads from behind the opening quote and returns the
  code units of the string and the text behind the closing quote. An escape is one of
  \<open>\" \\ \/ \b \f \n \r \t\<close> or \<open>\u\<close> with four hexadecimal digits; a raw control
  character (below U+0020) is an error.
\<close>

definition hex_value :: "nat \<Rightarrow> nat option" where
  "hex_value c =
     (if 48 \<le> c \<and> c \<le> 57 then Some (c - 48)
      else if 65 \<le> c \<and> c \<le> 70 then Some (c - 55)
      else if 97 \<le> c \<and> c \<le> 102 then Some (c - 87)
      else None)"

definition hex4 :: "nat \<Rightarrow> nat \<Rightarrow> nat \<Rightarrow> nat \<Rightarrow> nat option" where
  "hex4 a b c d =
     (case (hex_value a, hex_value b, hex_value c, hex_value d) of
        (Some w, Some x, Some y, Some z) \<Rightarrow> Some (((w * 16 + x) * 16 + y) * 16 + z)
      | _ \<Rightarrow> None)"

definition escape_char :: "nat \<Rightarrow> nat option" where
  "escape_char e =
     (if e = 34 then Some 34 else if e = 92 then Some 92 else if e = 47 then Some 47
      else if e = 98 then Some 8 else if e = 102 then Some 12 else if e = 110 then Some 10
      else if e = 114 then Some 13 else if e = 116 then Some 9 else None)"

definition consed :: "nat \<Rightarrow> (jstring \<times> jstring) option \<Rightarrow> (jstring \<times> jstring) option" where
  "consed c r = map_option (\<lambda>(s, rest). (c # s, rest)) r"

fun parse_string_body :: "jstring \<Rightarrow> (jstring \<times> jstring) option" where
  "parse_string_body [] = None"
| "parse_string_body (c # cs) =
     (if c = DQUOTE then Some ([], cs)
      else if c = BACKSLASH then
        (case cs of
           [] \<Rightarrow> None
         | e # es \<Rightarrow>
             if e = 117 then
               (case es of
                  h1 # h2 # h3 # h4 # rest \<Rightarrow>
                    (case hex4 h1 h2 h3 h4 of
                       None \<Rightarrow> None
                     | Some u \<Rightarrow> consed u (parse_string_body rest))
                | _ \<Rightarrow> None)
             else
               (case escape_char e of
                  None \<Rightarrow> None
                | Some x \<Rightarrow> consed x (parse_string_body es)))
      else if c < 32 then None
      else consed c (parse_string_body cs))"

text \<open>
  Numbers: an optional minus sign, an integer part without a leading zero (unless it is
  the single digit zero), an optional fraction and an optional exponent. The value is
  exact: the digits scaled by the power of ten.
\<close>

definition digits_value :: "jstring \<Rightarrow> nat" where
  "digits_value ds = foldl (\<lambda>a d. 10 * a + (d - 48)) 0 ds"

definition parse_exponent :: "jstring \<Rightarrow> (int \<times> jstring) option" where
  "parse_exponent s =
     (case s of
        [] \<Rightarrow> Some (0, s)
      | c # cs \<Rightarrow>
          if c = 101 \<or> c = 69 then
            (let neg = (case cs of [] \<Rightarrow> False | d # ds \<Rightarrow> d = 45);
                 signed = (case cs of [] \<Rightarrow> False | d # ds \<Rightarrow> d = 45 \<or> d = 43);
                 body = (if signed then tl cs else cs);
                 ds = takeWhile is_digit body
             in if ds = [] then None
                else Some ((if neg then - int (digits_value ds) else int (digits_value ds)),
                           dropWhile is_digit body))
          else Some (0, s))"

definition parse_fraction :: "jstring \<Rightarrow> (jstring \<times> jstring) option" where
  "parse_fraction s =
     (case s of
        [] \<Rightarrow> Some ([], s)
      | c # cs \<Rightarrow>
          if c = DOT then
            (let ds = takeWhile is_digit cs
             in if ds = [] then None else Some (ds, dropWhile is_digit cs))
          else Some ([], s))"

definition scale10 :: "rat \<Rightarrow> int \<Rightarrow> rat" where
  "scale10 q e = (if 0 \<le> e then q * 10 ^ nat e else q / 10 ^ nat (- e))"

definition parse_number :: "jstring \<Rightarrow> (rat \<times> jstring) option" where
  "parse_number s =
     (let neg = (case s of [] \<Rightarrow> False | c # cs \<Rightarrow> c = 45);
          s1 = (if neg then tl s else s);
          ip = takeWhile is_digit s1
      in if ip = [] \<or> (hd ip = 48 \<and> length ip > 1) then None
         else (case parse_fraction (dropWhile is_digit s1) of
                 None \<Rightarrow> None
               | Some (fp, s2) \<Rightarrow>
                   (case parse_exponent s2 of
                      None \<Rightarrow> None
                    | Some (e, s3) \<Rightarrow>
                        (let m = scale10 (of_nat (digits_value (ip @ fp))) (e - int (length fp))
                         in Some (if neg then - m else m, s3)))))"

text \<open>
  Values. \<open>parse_value\<close> reads one value and returns it with the text behind it;
  \<open>parse_elements\<close> reads the elements of an array up to the closing bracket and
  \<open>parse_members\<close> the members of an object up to the closing brace, both with what was
  read so far. A comma must be followed by a further element or member.
\<close>

fun parse_value :: "nat \<Rightarrow> jstring \<Rightarrow> (json \<times> jstring) option"
  and parse_elements :: "nat \<Rightarrow> json list \<Rightarrow> jstring \<Rightarrow> (json \<times> jstring) option"
  and parse_members :: "nat \<Rightarrow> (jstring \<times> json) list \<Rightarrow> jstring \<Rightarrow> (json \<times> jstring) option"
where
  "parse_value 0 s = None"
| "parse_value (Suc n) s =
     (case skip_ws s of
        [] \<Rightarrow> None
      | c # cs \<Rightarrow>
          if c = LBRACE then
            (case skip_ws cs of
               [] \<Rightarrow> None
             | d # ds \<Rightarrow> if d = RBRACE then Some (JObj [], ds) else parse_members n [] cs)
          else if c = LBRACKET then
            (case skip_ws cs of
               [] \<Rightarrow> None
             | d # ds \<Rightarrow> if d = RBRACKET then Some (JArr [], ds) else parse_elements n [] cs)
          else if c = DQUOTE then
            map_option (\<lambda>(str, rest). (JStr str, rest)) (parse_string_body cs)
          else if take 4 (c # cs) = js ''true'' then Some (JBool True, drop 4 (c # cs))
          else if take 5 (c # cs) = js ''false'' then Some (JBool False, drop 5 (c # cs))
          else if take 4 (c # cs) = js ''null'' then Some (JNull, drop 4 (c # cs))
          else map_option (\<lambda>(q, rest). (JNum q, rest)) (parse_number (c # cs)))"
| "parse_elements 0 acc s = None"
| "parse_elements (Suc n) acc s =
     (case parse_value n s of
        None \<Rightarrow> None
      | Some (v, r) \<Rightarrow>
          (case skip_ws r of
             [] \<Rightarrow> None
           | c # cs \<Rightarrow>
               if c = COMMA then parse_elements n (acc @ [v]) cs
               else if c = RBRACKET then Some (JArr (acc @ [v]), cs)
               else None))"
| "parse_members 0 acc s = None"
| "parse_members (Suc n) acc s =
     (case skip_ws s of
        [] \<Rightarrow> None
      | q # qs \<Rightarrow>
          if q \<noteq> DQUOTE then None
          else (case parse_string_body qs of
                  None \<Rightarrow> None
                | Some (k, r) \<Rightarrow>
                    (case skip_ws r of
                       [] \<Rightarrow> None
                     | c # cs \<Rightarrow>
                         if c \<noteq> COLON then None
                         else (case parse_value n cs of
                                 None \<Rightarrow> None
                               | Some (v, r') \<Rightarrow>
                                   (case skip_ws r' of
                                      [] \<Rightarrow> None
                                    | e # es \<Rightarrow>
                                        if e = COMMA then parse_members n (AList.update k v acc) es
                                        else if e = RBRACE then Some (JObj (AList.update k v acc), es)
                                        else None)))))"

text \<open>The whole text must be one value, with nothing but whitespace around it.\<close>

definition JSON_parse :: "jstring \<Rightarrow> json option" where
  "JSON_parse s =
     (case parse_value (Suc (length s)) s of
        None \<Rightarrow> None
      | Some (v, rest) \<Rightarrow> if skip_ws rest = [] then Some v else None)"

section \<open>The response normalizer (safeParseJSON)\<close>

subsection \<open>The regular expressions\<close>

text \<open>
  \<open>[\s\S]*\}\<close> tried at one position: the star takes everything and gives characters
  back until a closing brace follows, so the match is the longest prefix that ends with
  a closing brace.
\<close>

fun longest_to_brace :: "jstring \<Rightarrow> jstring option" where
  "longest_to_brace [] = None"
| "longest_to_brace (c # cs) =
     (case longest_to_brace cs of
        Some m \<Rightarrow> Some (c # m)
      | None \<Rightarrow> if c = RBRACE then Some [c] else None)"

text \<open>
  \<open>text.match(/\{[\s\S]*\}/)\<close>: the start positions are tried from the left; the
  pattern can start only at an opening brace. The result is \<open>match[0]\<close>, or
  \<open>None\<close> when \<open>match\<close> is \<open>null\<close>.
\<close>

fun match_braces :: "jstring \<Rightarrow> jstring option" where
  "match_braces [] = None"
| "match_braces (c # cs) =
     (if c = LBRACE then
        (case longest_to_brace cs of
           Some m \<Rightarrow> Some (c # m)
         | None \<Rightarrow> match_braces cs)
      else match_braces cs)"

text \<open>\<open>.replace(/(\r\n|\n|\r)/gm, " ")\<close>: the alternatives are tried in order, so a CR LF
  pair becomes one space.\<close>

fun replace_linebreaks :: "jstring \<Rightarrow> jstring" where
  "replace_linebreaks [] = []"
| "replace_linebreaks [c] = (if c = CR \<or> c = LF then [SPACE] else [c])"
| "replace_linebreaks (c # d # ds) =
     (if c = CR \<and> d = LF then SPACE # replace_linebreaks ds
      else if c = CR \<or> c = LF then SPACE # replace_linebreaks (d # ds)
      else c # replace_linebreaks (d # ds))"

text \<open>\<open>.replace(/'/g, '"')\<close>\<close>

definition replace_quotes :: "jstring \<Rightarrow> jstring" where
  "replace_quotes s = map (\<lambda>c. if c = SQUOTE then DQUOTE else c) s"

text \<open>
  \<open>,\s*}\<close> and \<open>,\s*]\<close> tried just after a comma: the whitespace is skipped and the
  closer \<open>k\<close> must follow.
\<close>

definition closer_follows :: "nat \<Rightarrow> jstring \<Rightarrow> bool" where
  "closer_follows k cs = (case dropWhile is_space cs of [] \<Rightarrow> False | d # ds \<Rightarrow> d = k)"

text \<open>
  \<open>.replace(/,\s*}/g, "}")\<close> for \<open>k = RBRACE\<close> and \<open>.replace(/,\s*]/g, "]")\<close> for
  \<open>k = RBRACKET\<close>: a match is replaced by the closer alone and the scan goes on behind
  the match.
\<close>

function replace_comma_before :: "nat \<Rightarrow> jstring \<Rightarrow> jstring" where
  "replace_comma_before k [] = []"
| "replace_comma_before k (c # cs) =
     (if c = COMMA \<and> closer_follows k cs
      then k # replace_comma_before k (tl (dropWhile is_space cs))
      else c # replace_comma_before k cs)"
  by pat_completeness auto
termination
proof (relation "measure (\<lambda>(k, s). length s)")
  fix k :: nat and c :: nat and cs :: jstring
  have "length (tl (dropWhile is_space cs)) \<le> length cs"
    using length_dropWhile_le [of is_space cs] by simp
  then show "((k, tl (dropWhile is_space cs)), (k, c # cs)) \<in> measure (\<lambda>(k, s). length s)"
    by simp
qed simp_all

text \<open>The four replacements chained on \<open>match[0]\<close>, in the order of the source.\<close>

definition cleaned :: "jstring \<Rightarrow> jstring" where
  "cleaned m =
     replace_comma_before RBRACKET
       (replace_comma_before RBRACE
          (replace_quotes (replace_linebreaks m)))"

subsection \<open>safeParseJSON\<close>

text \<open>
  The argument of \<open>safeParseJSON\<close>: \<open>undefined\<close> or \<open>null\<close>, an object, an array, or
  a string. (The caller passes \<open>response.output_text\<close>.)
\<close>

datatype raw =
    Absent
  | ObjectValue "(jstring \<times> json) list"
  | ArrayValue "json list"
  | Text jstring

text \<open>What the server writes with \<open>console.error\<close>; the engine's message text is
  left out.\<close>

datatype log_line =
    StillInvalidJSON
  | AnalysisFailed

text \<open>
  \<open>safeParseJSON\<close> of the server with structured output. \<open>parse\<close> stands for
  \<open>JSON.parse\<close>, \<open>None\<close> for its exception, which both \<open>try\<close> blocks catch. The
  result is the returned value (\<open>JNull\<close> for \<open>null\<close>) and the lines logged.
\<close>

definition safeParseJSON :: "(jstring \<Rightarrow> json option) \<Rightarrow> raw \<Rightarrow> json \<times> log_line list" where
  "safeParseJSON parse text =
     (case text of
        Absent \<Rightarrow> (JNull, [])
      | ObjectValue kvs \<Rightarrow> (JObj kvs, [])
      | ArrayValue xs \<Rightarrow> (JArr xs, [])
      | Text t \<Rightarrow>
          if t = [] then (JNull, [])
          else (case parse t of
                  Some v \<Rightarrow> (v, [])
                | None \<Rightarrow>
                    (case match_braces t of
                       None \<Rightarrow> (JNull, [])
                     | Some m \<Rightarrow>
                         (case parse (cleaned m) of
                            Some v \<Rightarrow> (v, [])
                          | None \<Rightarrow> (JNull, [StillInvalidJSON])))))"

text \<open>
  \<open>safeParseJSON\<close> of the server without structured output: there is no
  \<open>typeof\<close> test, and its argument is the text of the reply, \<open>None\<close> when absent.
\<close>

definition safeParseJSON_plain :: "(jstring \<Rightarrow> json option) \<Rightarrow> jstring option \<Rightarrow> json \<times> log_line list" where
  "safeParseJSON_plain parse text =
     (case text of
        None \<Rightarrow> (JNull, [])
      | Some t \<Rightarrow>
          if t = [] then (JNull, [])
          else (case parse t of
                  Some v \<Rightarrow> (v, [])
                | None \<Rightarrow>
                    (case match_braces t of
                       None \<Rightarrow> (JNull, [])
                     | Some m \<Rightarrow>
                         (case parse (cleaned m) of
                            Some v \<Rightarrow> (v, [])
                          | None \<Rightarrow> (JNull, [StillInvalidJSON])))))"

section \<open>The temporary file store\<close>

text \<open>\<open>Date.now() + ext\<close> turns the clock reading, a non-negative integer, into its
  decimal digits.\<close>

function decimal :: "nat \<Rightarrow> jstring" where
  "decimal n = (if n < 10 then [48 + n] else decimal (n div 10) @ [48 + n mod 10])"
  by pat_completeness auto
termination
  by (relation "measure id") auto

declare decimal.simps [simp del]

text \<open>
  The \<open>filename\<close> callback of \<open>multer.diskStorage\<close>. \<open>extname\<close> stands for
  \<open>path.extname\<close> and \<open>now\<close> for the value of \<open>Date.now()\<close>; the empty extension is
  falsy, so \<open>||\<close> replaces it.
\<close>

definition storage_filename :: "(jstring \<Rightarrow> jstring) \<Rightarrow> nat \<Rightarrow> jstring \<Rightarrow> jstring" where
  "storage_filename extname now originalname =
     (let ext = (if extname originalname = [] then js ''.pdf'' else extname originalname)
      in decimal now @ ext)"

text \<open>
  A reference model of Node's POSIX \<open>path.extname\<close>: trailing slashes are dropped, the
  last segment is taken, and the extension runs from its last dot to its end; it is empty
  when there is no dot, when the last dot is the first character of the segment, and for
  the segment \<open>..\<close>.
\<close>

definition path_extname :: "jstring \<Rightarrow> jstring" where
  "path_extname p =
     (let stripped = rev (dropWhile (\<lambda>c. c = SLASH) (rev p));
          base = rev (takeWhile (\<lambda>c. c \<noteq> SLASH) (rev stripped));
          ext = rev (takeWhile (\<lambda>c. c \<noteq> DOT) (rev base));
          stem = take (length base - length ext - 1) base
      in if DOT \<notin> set base \<or> stem = [] \<or> (stem = [DOT] \<and> ext = []) then []
         else DOT # ext)"

text \<open>
  The part of the world the endpoint touches: the files in \<open>uploads/\<close>, the calls of
  \<open>fs.unlink\<close> so far, each with whether it found its file, and the console.
\<close>

record world =
  files :: "jstring set"
  unlink_calls :: "(jstring \<times> bool) list"
  console :: "log_line list"

text \<open>\<open>fs.unlink(filePath, () => {})\<close>: the callback ignores the error of a failed
  deletion.\<close>

definition unlink :: "jstring \<Rightarrow> world \<Rightarrow> world" where
  "unlink filePath w =
     w\<lparr>files := files w - {filePath},
       unlink_calls := unlink_calls w @ [(filePath, filePath \<in> files w)]\<rparr>"

section \<open>The endpoint POST /api/analyze\<close>

text \<open>The text of an error message: a string, or the engine's message of a TypeError.\<close>

datatype message =
    Message jstring
  | TypeErrorMessage

datatype body =
    Report json
  | Error message

record http_response =
  status :: nat
  body :: body

text \<open>\<open>response.output_parsed\<close> (\<open>None\<close> when undefined) and
  \<open>response.output_text\<close>.\<close>

record ai_response =
  output_parsed :: "json option"
  output_text :: raw

text \<open>What the two awaited calls of the external client do: \<open>openai.files.create\<close>
  throws, \<open>openai.responses.create\<close> throws, or the response arrives.\<close>

datatype upstream =
    FilesCreateThrows jstring
  | ResponsesCreateThrows jstring
  | Responded ai_response

text \<open>\<open>Array.isArray(parsed.f)\<close> on what the property read gives, \<open>None\<close> for
  \<open>undefined\<close>.\<close>

definition is_array :: "json option \<Rightarrow> bool" where
  "is_array v = (case v of Some (JArr xs) \<Rightarrow> True | _ \<Rightarrow> False)"

text \<open>
  \<open>if (!Array.isArray(parsed.f)) parsed.f = [];\<close> The server is an ES module, so
  strict: the assignment to a property of a primitive throws a TypeError. An array has no
  such property, and the one assigned to it is not an element, so \<open>res.json\<close> leaves it
  out.
\<close>

definition ensure_array :: "jstring \<Rightarrow> json \<Rightarrow> message + json" where
  "ensure_array f parsed =
     (case parsed of
        JObj kvs \<Rightarrow>
          if is_array (map_of kvs f) then Inr (JObj kvs)
          else Inr (JObj (AList.update f (JArr []) kvs))
      | JArr xs \<Rightarrow> Inr (JArr xs)
      | _ \<Rightarrow> Inl TypeErrorMessage)"

text \<open>The \<open>catch\<close> block of the handler.\<close>

definition catch_block :: "jstring \<Rightarrow> message \<Rightarrow> world \<Rightarrow> http_response \<times> world" where
  "catch_block filePath msg w =
     (let w1 = unlink filePath w;
          w2 = w1\<lparr>console := console w1 @ [AnalysisFailed]\<rparr>
      in (\<lparr>status = 500, body = Error msg\<rparr>, w2))"

text \<open>\<open>response.output_parsed || safeParseJSON(response.output_text)\<close>\<close>

definition parsed_of :: "(jstring \<Rightarrow> json option) \<Rightarrow> ai_response \<Rightarrow> json \<times> log_line list" where
  "parsed_of parse r =
     (case output_parsed r of
        None \<Rightarrow> safeParseJSON parse (output_text r)
      | Some v \<Rightarrow> if truthy v then (v, []) else safeParseJSON parse (output_text r))"

text \<open>
  The handler of the server with structured output, from \<open>const filePath = req.file.path\<close>
  on: the \<open>try\<close> block, with every \<open>throw\<close> inside it led to the \<open>catch\<close> block.
\<close>

definition analyze :: "(jstring \<Rightarrow> json option) \<Rightarrow> jstring \<Rightarrow> upstream \<Rightarrow> world \<Rightarrow> http_response \<times> world" where
  "analyze parse filePath up w =
     (case up of
        FilesCreateThrows msg \<Rightarrow> catch_block filePath (Message msg) w
      | ResponsesCreateThrows msg \<Rightarrow> catch_block filePath (Message msg) w
      | Responded r \<Rightarrow>
          (let w1 = unlink filePath w;
               (parsed, logged) = parsed_of parse r;
               w2 = w1\<lparr>console := console w1 @ logged\<rparr>
           in if truthy parsed then
                (case ensure_array (js ''abnormal_findings'') parsed of
                   Inl e \<Rightarrow> catch_block filePath e w2
                 | Inr p1 \<Rightarrow>
                     (case ensure_array (js ''categorized_analysis'') p1 of
                        Inl e \<Rightarrow> catch_block filePath e w2
                      | Inr p2 \<Rightarrow> (\<lparr>status = 200, body = Report p2\<rparr>, w2)))
              else (\<lparr>status = 500, body = Error (Message (js ''AI returned invalid JSON''))\<rparr>, w2)))"

text \<open>
  The handler of the server without structured output, which sends the parsed value as
  it is. Its reply is the text alone.
\<close>

datatype upstream_plain =
    PlainFilesCreateThrows jstring
  | PlainResponsesCreateThrows jstring
  | PlainResponded "jstring option"

definition analyze_plain :: "(jstring \<Rightarrow> json option) \<Rightarrow> jstring \<Rightarrow> upstream_plain \<Rightarrow> world \<Rightarrow> http_response \<times> world" where
  "analyze_plain parse filePath up w =
     (case up of
        PlainFilesCreateThrows msg \<Rightarrow> catch_block filePath (Message msg) w
      | PlainResponsesCreateThrows msg \<Rightarrow> catch_block filePath (Message msg) w
      | PlainResponded t \<Rightarrow>
          (let w1 = unlink filePath w;
               (parsed, logged) = safeParseJSON_plain parse t;
               w2 = w1\<lparr>console := console w1 @ logged\<rparr>
           in if truthy parsed then (\<lparr>status = 200, body = Report parsed\<rparr>, w2)
              else (\<lparr>status = 500, body = Error (Message (js ''AI returned invalid JSON''))\<rparr>, w2)))"

text \<open>
  The request as the endpoint sees it: the original name of the file in the field
  \<open>file\<close>, if one is attached.
\<close>

record request =
  attached :: "jstring option"

text \<open>
  \<open>upload.single("file")\<close> followed by the handler. With a file attached, multer
  writes it to \<open>uploads/\<close> under the name the storage gives and sets \<open>req.file.path\<close>;
  with none, it writes nothing and \<open>req.file\<close> stays undefined.
\<close>

definition endpoint ::
  "(jstring \<Rightarrow> json option) \<Rightarrow> (jstring \<Rightarrow> jstring) \<Rightarrow> nat \<Rightarrow> request \<Rightarrow> upstream \<Rightarrow> world \<Rightarrow> http_response \<times> world" where
  "endpoint parse extname now req up w =
     (case attached req of
        None \<Rightarrow> (\<lparr>status = 400, body = Error (Message (js ''No file uploaded''))\<rparr>, w)
      | Some originalname \<Rightarrow>
          (let filePath = js ''uploads/'' @ storage_filename extname now originalname;
               w1 = w\<lparr>files := insert filePath (files w)\<rparr>
           in analyze parse filePath up w1))"

section \<open>The report renderer (ReportPreview)\<close>

text \<open>
  An entry of \<open>categorized_analysis\<close> in a report of the canonical shape: both fields
  are strings, \<open>None\<close> when the field is absent.
\<close>

record entry =
  category :: "jstring option"
  summary :: "jstring option"

definition trim :: "jstring \<Rightarrow> jstring" where
  "trim s = rev (dropWhile is_space (rev (dropWhile is_space s)))"

text \<open>
  The \<open>forEach\<close> that fills \<open>normalizedCategories\<close>. \<open>lower\<close> stands for
  \<open>String.prototype.toLowerCase\<close>. The object is modelled by what a property read
  gives, \<open>None\<close> for \<open>undefined\<close>; an absent or empty category is falsy and the entry
  is skipped. (Only the lower-cased taxonomy names are read, and \<open>Object.prototype\<close>
  has no property of such a name; storing a string under the name \<open>__proto__\<close> changes
  nothing that is read.)
\<close>

definition normalize_step :: "(jstring \<Rightarrow> jstring) \<Rightarrow> (jstring \<Rightarrow> jstring option) \<Rightarrow> entry \<Rightarrow> (jstring \<Rightarrow> jstring option)" where
  "normalize_step lower m c =
     (case category c of
        None \<Rightarrow> m
      | Some cat \<Rightarrow> if cat = [] then m else m(lower (trim cat) := summary c))"

definition normalizedCategories :: "(jstring \<Rightarrow> jstring) \<Rightarrow> entry list \<Rightarrow> (jstring \<Rightarrow> jstring option)" where
  "normalizedCategories lower entries = foldl (normalize_step lower) (\<lambda>k. None) entries"

definition categoryOrder :: "jstring list" where
  "categoryOrder =
     [js ''Haematology'', js ''Iron Status'', js ''Renal Function & Metabolic'',
      js ''Liver Function'', js ''Lipids & Cardiovascular Risk'',
      js ''Inflammatory Marker & CVD Risk'', js ''Diabetes & Pancreatic'',
      js ''Infectious Disease Serology'', js ''Thyroid Function'', js ''Tumour Markers'',
      js ''Immunoserology'', js ''Urinalysis'', js ''Other'']"

text \<open>
  One step of \<open>categoryOrder.map\<close>: \<open>None\<close> for \<open>return null\<close>, which React renders as
  nothing, otherwise the heading and the paragraph of the section. An undefined or empty
  summary is falsy.
\<close>

definition render_category :: "(jstring \<Rightarrow> jstring) \<Rightarrow> (jstring \<Rightarrow> jstring option) \<Rightarrow> jstring \<Rightarrow> (jstring \<times> jstring) option" where
  "render_category lower m cat =
     (case m (lower cat) of
        None \<Rightarrow> None
      | Some s \<Rightarrow> if s = [] then None else Some (cat, s))"

text \<open>
  The sections under "Lab Category Summaries", in the order rendered.
  \<open>analysis\<close> is \<open>content.categorized_analysis\<close>, \<open>None\<close> when absent, which
  \<open>|| []\<close> replaces.
\<close>

definition category_sections :: "(jstring \<Rightarrow> jstring) \<Rightarrow> entry list option \<Rightarrow> (jstring \<times> jstring) list" where
  "category_sections lower analysis =
     (let entries = (case analysis of None \<Rightarrow> [] | Some es \<Rightarrow> es);
          m = normalizedCategories lower entries
      in List.map_filter (render_category lower m) categoryOrder)"

text \<open>A lower-casing that is \<open>toLowerCase\<close> on ASCII text, for the concrete
  evaluations.\<close>

definition ascii_lower :: "jstring \<Rightarrow> jstring" where
  "ascii_lower s = map (\<lambda>c. if 65 \<le> c \<and> c \<le> 90 then c + 32 else c) s"

section \<open>The normalizer as the specification words it\<close>

text \<open>
  The substring from the first opening brace to the last closing brace behind it, if
  there is one.
\<close>

definition brace_span :: "jstring \<Rightarrow> jstring option" where
  "brace_span t =
     (let from_first = dropWhile (\<lambda>c. c \<noteq> LBRACE) t
      in if from_first = [] then None
         else (let upto_last = rev (dropWhile (\<lambda>c. c \<noteq> RBRACE) (rev (tl from_first)))
               in if upto_last = [] then None else Some (LBRACE # upto_last)))"

text \<open>
  The four repairs as the specification words them, each written without the regular
  expressions of the source.

  Line breaks collapse to single spaces: a line break is a CR LF pair, or a CR or an LF
  alone, and each becomes one space. \<open>collapse_after p\<close> reads the text behind the
  character \<open>p\<close>; an LF right behind a CR belongs to the break already replaced.
\<close>

fun collapse_after :: "nat option \<Rightarrow> jstring \<Rightarrow> jstring" where
  "collapse_after p [] = []"
| "collapse_after p (c # cs) =
     (if c = LF \<and> p = Some CR then [] else if c = CR \<or> c = LF then [SPACE] else [c]) @
     collapse_after (Some c) cs"

definition collapse_line_breaks :: "jstring \<Rightarrow> jstring" where
  "collapse_line_breaks s = collapse_after None s"

text \<open>Every single quote becomes a double quote.\<close>

primrec single_to_double_quotes :: "jstring \<Rightarrow> jstring" where
  "single_to_double_quotes [] = []"
| "single_to_double_quotes (c # cs) = (if c = SQUOTE then DQUOTE else c) # single_to_double_quotes cs"

text \<open>Whether the first character of the text that is not white space is \<open>k\<close>.\<close>

definition next_is :: "nat \<Rightarrow> jstring \<Rightarrow> bool" where
  "next_is k s \<longleftrightarrow> find (\<lambda>c. \<not> is_space c) s = Some k"

text \<open>
  The commas immediately before the closer \<open>k\<close> are removed: a comma whose next
  character, white space apart, is \<open>k\<close> goes, and with it the white space between the
  two. So a character goes when the next character behind it that is not white space is
  \<open>k\<close>, and it is a comma, or it is white space and the nearest character before it
  that is not white space is a comma. \<open>before\<close> holds the characters already read,
  the nearest first.
\<close>

fun delete_commas_from :: "nat \<Rightarrow> jstring \<Rightarrow> jstring \<Rightarrow> jstring" where
  "delete_commas_from k before [] = []"
| "delete_commas_from k before (c # cs) =
     (if (c = COMMA \<or> (is_space c \<and> next_is COMMA before)) \<and> next_is k cs
      then delete_commas_from k (c # before) cs
      else c # delete_commas_from k (c # before) cs)"

definition delete_commas_before :: "nat \<Rightarrow> jstring \<Rightarrow> jstring" where
  "delete_commas_before k s = delete_commas_from k [] s"

text \<open>
  The four repairs in the order of the specification: line breaks to spaces, single
  quotes to double quotes, commas before a closing brace removed, commas before a
  closing bracket removed.
\<close>

definition repairs :: "jstring \<Rightarrow> jstring" where
  "repairs =
     delete_commas_before RBRACKET \<circ> delete_commas_before RBRACE \<circ>
     single_to_double_quotes \<circ> collapse_line_breaks"

text \<open>
  The priority chain, first success wins; \<open>None\<close> is the failure of the normalization.
\<close>

definition normalize_spec :: "(jstring \<Rightarrow> json option) \<Rightarrow> raw \<Rightarrow> json option" where
  "normalize_spec parse input =
     (case input of
        Absent \<Rightarrow> None
      | ObjectValue kvs \<Rightarrow> Some (JObj kvs)
      | ArrayValue xs \<Rightarrow> Some (JArr xs)
      | Text t \<Rightarrow>
          (case parse t of
             Some v \<Rightarrow> Some v
           | None \<Rightarrow> (case brace_span t of None \<Rightarrow> None | Some m \<Rightarrow> parse (repairs m))))"

text \<open>
  Whether the text has a comma before the closer \<open>k\<close>: a comma whose next character,
  white space apart, is \<open>k\<close>. In a valid JSON text such a comma can stand only inside
  a string.
\<close>

fun has_comma_before :: "nat \<Rightarrow> jstring \<Rightarrow> bool" where
  "has_comma_before k [] = False"
| "has_comma_before k (c # cs) = ((c = COMMA \<and> next_is k cs) \<or> has_comma_before k cs)"

text \<open>
  A parser reads line breaks as spaces when every text it accepts keeps its value with
  each line break written as one space. \<open>JSON.parse\<close> does: in a valid JSON text a CR
  or an LF can stand only between the tokens, where it is white space as the space is.
  The reference model does, which is proved below.
\<close>

definition reads_line_breaks_as_spaces :: "(jstring \<Rightarrow> json option) \<Rightarrow> bool" where
  "reads_line_breaks_as_spaces parse \<longleftrightarrow>
     (\<forall>t v. parse t = Some v \<longrightarrow> parse (collapse_line_breaks t) = Some v)"

text \<open>
  Loose spellings. \<open>respelled Q K e t\<close>: the text \<open>t\<close> is the text \<open>e\<close> except that,
  if \<open>Q\<close> holds, a double quote of \<open>e\<close> may be written as a single quote, and a
  closer of \<open>e\<close> that is in \<open>K\<close> may have a comma and white space put before it.
  So \<open>respelled True {RBRACE, RBRACKET} e t\<close> says that \<open>e\<close> is the double-quoted,
  comma-correct equivalent of \<open>t\<close>.
\<close>

inductive respelled :: "bool \<Rightarrow> nat set \<Rightarrow> jstring \<Rightarrow> jstring \<Rightarrow> bool"
  for Q :: bool and K :: "nat set" where
  Nil: "respelled Q K [] []"
| Same: "respelled Q K e t \<Longrightarrow> respelled Q K (c # e) (c # t)"
| Quote: "Q \<Longrightarrow> respelled Q K e t \<Longrightarrow> respelled Q K (DQUOTE # e) (SQUOTE # t)"
| Comma: "k \<in> K \<Longrightarrow> list_all is_space ws \<Longrightarrow> respelled Q K e t \<Longrightarrow>
          respelled Q K (k # e) (COMMA # ws @ k # t)"

text \<open>The array a property holds, the empty one when it holds none or something else.\<close>

definition array_or_empty :: "json option \<Rightarrow> json list" where
  "array_or_empty v = (case v of Some (JArr xs) \<Rightarrow> xs | _ \<Rightarrow> [])"

text \<open>
  The property name under which the renderer stores an entry, \<open>None\<close> when it skips
  the entry; and whether that name is the lower-cased name of a taxonomy category.
\<close>

definition key_of :: "(jstring \<Rightarrow> jstring) \<Rightarrow> entry \<Rightarrow> jstring option" where
  "key_of lower e =
     (case category e of None \<Rightarrow> None | Some c \<Rightarrow> if c = [] then None else Some (lower (trim c)))"

definition in_taxonomy :: "(jstring \<Rightarrow> jstring) \<Rightarrow> entry \<Rightarrow> bool" where
  "in_taxonomy lower e =
     (case key_of lower e of None \<Rightarrow> False | Some k \<Rightarrow> k \<in> set (map lower categoryOrder))"

text \<open>
  Whether an entry matches a category: its category, trimmed and lower-cased, is the
  lower-cased category name. And the section the entries give a category: the summary
  of the last entry that matches it, if there is one and its summary is not empty.
\<close>

definition matches :: "(jstring \<Rightarrow> jstring) \<Rightarrow> jstring \<Rightarrow> entry \<Rightarrow> bool" where
  "matches lower cat e \<longleftrightarrow>
     (case category e of None \<Rightarrow> False | Some c \<Rightarrow> c \<noteq> [] \<and> lower (trim c) = lower cat)"

definition shown_section :: "(jstring \<Rightarrow> jstring) \<Rightarrow> entry list \<Rightarrow> jstring \<Rightarrow> (jstring \<times> jstring) option" where
  "shown_section lower es cat =
     (let ms = filter (matches lower cat) es
      in if ms = [] then None
         else (case summary (last ms) of
                 None \<Rightarrow> None
               | Some s \<Rightarrow> if s = [] then None else Some (cat, s)))"

text \<open>A report with its categories out of order and one category outside the taxonomy.\<close>

definition sample_analysis :: "entry list" where
  "sample_analysis =
     [\<lparr>category = Some (js '' liver function ''), summary = Some (js ''raised ALT'')\<rparr>,
      \<lparr>category = Some (js ''Astrology''), summary = Some (js ''n/a'')\<rparr>,
      \<lparr>category = Some (js ''HAEMATOLOGY''), summary = Some (js ''normal'')\<rparr>]"

text \<open>
  A reply that wraps a pretty-printed object in a code fence: the prose before the
  object, the object on four lines, and the prose behind it.
\<close>

definition fenced_prose :: jstring where
  "fenced_prose = js ''Here is the report:'' @ [LF] @ js ''```json'' @ [LF]"

definition fenced_object :: jstring where
  \<open>fenced_object =
     js ''{'' @ [LF] @ js ''  "a": [1, 2],'' @ [CR, LF] @ js ''  "b": "x"'' @ [LF] @ js ''}''\<close>

definition fenced_prose2 :: jstring where
  "fenced_prose2 = [LF] @ js ''```'' @ [LF] @ js ''Done.''"

text \<open>
  An object on two lines, and a loose spelling of it on three lines, with single quotes
  and with a comma before the closing bracket and before the closing brace.
\<close>

definition strict_text :: jstring where
  \<open>strict_text = js ''{"a": "b",'' @ [LF] @ js ''  "c": [1, 2]}''\<close>

definition loose_text :: jstring where
  \<open>loose_text = js ''{'a': 'b','' @ [LF] @ js ''  'c': [1, 2, ],'' @ [CR, LF] @ js ''}''\<close>

section \<open>The fuel of the reference parser\<close>

text \<open>
  A successful parse reads at least one character, and any fuel from the number of
  characters read on gives the same result.
\<close>

lemma skip_ws_length: "length (skip_ws s) \<le> length s"
  by (simp add: skip_ws_def length_dropWhile_le)

lemma skip_ws_Cons_length: "skip_ws s = c # cs \<Longrightarrow> length cs < length s"
  using skip_ws_length [of s] by simp

lemma consed_Some: "consed c x = Some (str, r) \<Longrightarrow> \<exists>str'. x = Some (str', r)"
  by (cases x) (auto simp: consed_def)

lemma parse_string_body_length:
  "parse_string_body s = Some (str, r) \<Longrightarrow> length r < length s"
proof (induction "length s" arbitrary: s str r rule: less_induct)
  case less
  from less.prems obtain c cs where s: "s = c # cs" by (cases s) auto
  note shorter = less.hyps
  show ?case
  proof (cases "c = DQUOTE")
    case True
    with less.prems s show ?thesis by simp
  next
    case nq: False
    show ?thesis
    proof (cases "c = BACKSLASH")
      case bs: True
      from less.prems s bs obtain e es where cs: "cs = e # es"
        by (cases cs) auto
      show ?thesis
      proof (cases "e = 117")
        case u: True
        have step: "parse_string_body s =
            (case es of
               h1 # h2 # h3 # h4 # rest \<Rightarrow>
                 (case hex4 h1 h2 h3 h4 of
                    None \<Rightarrow> None
                  | Some u \<Rightarrow> consed u (parse_string_body rest))
             | _ \<Rightarrow> None)"
          unfolding s cs using bs u by simp
        from less.prems step obtain h1 h2 h3 h4 rest where es: "es = h1 # h2 # h3 # h4 # rest"
          by (simp split: list.splits)
        from less.prems step es obtain uu where "consed uu (parse_string_body rest) = Some (str, r)"
          by (simp split: option.splits)
        then obtain str' where rec: "parse_string_body rest = Some (str', r)"
          using consed_Some by blast
        have "length rest < length s" by (simp add: s cs es)
        from shorter [OF this rec] show ?thesis by (simp add: s cs es)
      next
        case nu: False
        have step: "parse_string_body s =
            (case escape_char e of None \<Rightarrow> None | Some x \<Rightarrow> consed x (parse_string_body es))"
          unfolding s cs using bs nu by simp
        from less.prems step obtain x where "consed x (parse_string_body es) = Some (str, r)"
          by (simp split: option.splits)
        then obtain str' where rec: "parse_string_body es = Some (str', r)"
          using consed_Some by blast
        have "length es < length s" by (simp add: s cs)
        from shorter [OF this rec] show ?thesis by (simp add: s cs)
      qed
    next
      case nb: False
      have step: "parse_string_body s = (if c < 32 then None else consed c (parse_string_body cs))"
        unfolding s using nq nb by simp
      from less.prems step have "consed c (parse_string_body cs) = Some (str, r)"
        by (simp split: if_splits)
      then obtain str' where rec: "parse_string_body cs = Some (str', r)"
        using consed_Some by blast
      have "length cs < length s" by (simp add: s)
      from shorter [OF this rec] show ?thesis by (simp add: s)
    qed
  qed
qed

lemma parse_fraction_length: "parse_fraction s = Some (fp, r) \<Longrightarrow> length r \<le> length s"
  using length_dropWhile_le [of is_digit "tl s"]
  by (auto simp: parse_fraction_def Let_def split: list.splits if_splits)

lemma parse_exponent_length: "parse_exponent s = Some (e, r) \<Longrightarrow> length r \<le> length s"
proof (cases s)
  case Nil
  assume "parse_exponent s = Some (e, r)"
  with Nil show ?thesis by (simp add: parse_exponent_def)
next
  case (Cons c cs)
  assume a: "parse_exponent s = Some (e, r)"
  have "length (dropWhile is_digit cs) \<le> length cs" by (rule length_dropWhile_le)
  moreover have "length (dropWhile is_digit (tl cs)) \<le> length cs"
    using length_dropWhile_le [of is_digit "tl cs"] by simp
  ultimately show ?thesis
    using a Cons by (auto simp: parse_exponent_def Let_def split: if_splits)
qed

lemma parse_number_length:
  assumes "parse_number s = Some (q, r)"
  shows "length r < length s"
proof -
  define neg where "neg = (case s of [] \<Rightarrow> False | c # cs \<Rightarrow> c = 45)"
  define s1 where "s1 = (if neg then tl s else s)"
  define ip where "ip = takeWhile is_digit s1"
  from assms have ip: "ip \<noteq> []"
    by (auto simp: parse_number_def Let_def neg_def s1_def ip_def split: if_splits)
  from assms obtain fp s2 e where f: "parse_fraction (dropWhile is_digit s1) = Some (fp, s2)"
    and x: "parse_exponent s2 = Some (e, r)"
    by (auto simp: parse_number_def Let_def neg_def s1_def ip_def split: if_splits option.splits)
  have "length (takeWhile is_digit s1) + length (dropWhile is_digit s1) = length s1"
    by (metis length_append takeWhile_dropWhile_id)
  with ip have "length (dropWhile is_digit s1) < length s1"
    unfolding ip_def by (cases "takeWhile is_digit s1") auto
  moreover have "length s1 \<le> length s" by (simp add: s1_def)
  ultimately show ?thesis
    using parse_fraction_length [OF f] parse_exponent_length [OF x] by linarith
qed

lemma parse_value_scalar:
  assumes "skip_ws s = c # cs" and "c \<noteq> LBRACE" and "c \<noteq> LBRACKET"
  shows "parse_value (Suc a) s = parse_value (Suc b) s"
  using assms by simp

lemma parse_value_scalar_length:
  assumes sk: "skip_ws s = c # cs" and "c \<noteq> LBRACE" and "c \<noteq> LBRACKET"
    and pv: "parse_value (Suc n) s = Some (v, r)"
  shows "length r < length s"
proof -
  have l: "length (c # cs) \<le> length s" using skip_ws_length [of s] sk by simp
  show ?thesis
  proof (cases "c = DQUOTE")
    case True
    with assms obtain str where "parse_string_body cs = Some (str, r)" by auto
    from parse_string_body_length [OF this] l show ?thesis by simp
  next
    case nq: False
    show ?thesis
    proof (cases "take 4 (c # cs) = js ''true'' \<or> take 5 (c # cs) = js ''false'' \<or> take 4 (c # cs) = js ''null''")
      case True
      then have "r = drop 4 (c # cs) \<or> r = drop 5 (c # cs)"
        using assms nq by (auto split: if_splits)
      with l show ?thesis by auto
    next
      case False
      with assms nq obtain q where "parse_number (c # cs) = Some (q, r)" by auto
      from parse_number_length [OF this] l show ?thesis by simp
    qed
  qed
qed

lemma value_step:
  assumes elems: "\<And>acc s v r. parse_elements n acc s = Some (v, r) \<Longrightarrow>
        length r < length s \<and> (\<forall>k. length s - length r \<le> k \<longrightarrow> parse_elements k acc s = Some (v, r))"
    and membs: "\<And>acc s v r. parse_members n acc s = Some (v, r) \<Longrightarrow>
        length r < length s \<and> (\<forall>k. length s - length r \<le> k \<longrightarrow> parse_members k acc s = Some (v, r))"
    and pv: "parse_value (Suc n) s = Some (v, r)"
  shows "length r < length s \<and> (\<forall>k. length s - length r \<le> k \<longrightarrow> parse_value k s = Some (v, r))"
proof -
  from pv obtain c cs where sk: "skip_ws s = c # cs"
    by (cases "skip_ws s") auto
  have l: "length cs < length s" using sk by (rule skip_ws_Cons_length)
  show ?thesis
  proof (cases "c = LBRACE \<or> c = LBRACKET")
    case False
    then have sc: "c \<noteq> LBRACE" "c \<noteq> LBRACKET" by auto
    have len: "length r < length s"
      using sk sc pv by (rule parse_value_scalar_length)
    have "parse_value k s = Some (v, r)" if "length s - length r \<le> k" for k
    proof -
      from that len obtain k' where "k = Suc k'" by (cases k) auto
      with parse_value_scalar [OF sk sc, of k' n] pv show ?thesis by simp
    qed
    with len show ?thesis by blast
  next
    case True
    from pv sk True obtain d ds where sk2: "skip_ws cs = d # ds"
      by (cases "skip_ws cs") auto
    have l2: "length ds < length cs" using sk2 by (rule skip_ws_Cons_length)
    show ?thesis
    proof (cases "(c = LBRACE \<and> d = RBRACE) \<or> (c = LBRACKET \<and> d = RBRACKET)")
      case empty: True
      then have same: "parse_value (Suc a) s = parse_value (Suc b) s" for a b
        using sk sk2 by auto
      from empty pv sk sk2 have r: "r = ds" by auto
      with l l2 have len: "length r < length s" by simp
      have "parse_value k s = Some (v, r)" if "length s - length r \<le> k" for k
      proof -
        from that len obtain k' where "k = Suc k'" by (cases k) auto
        with same [of k' n] pv show ?thesis by simp
      qed
      with len show ?thesis by blast
    next
      case nonempty: False
      show ?thesis
      proof (cases "c = LBRACE")
        case brace: True
        with nonempty have d: "d \<noteq> RBRACE" by simp
        have unf: "parse_value (Suc a) s = parse_members a [] cs" for a
          using sk sk2 brace d by simp
        from pv unf have "parse_members n [] cs = Some (v, r)" by simp
        from membs [OF this] have len': "length r < length cs"
          and rest: "\<And>k. length cs - length r \<le> k \<Longrightarrow> parse_members k [] cs = Some (v, r)"
          by blast+
        from len' l have len: "length r < length s" by simp
        have "parse_value k s = Some (v, r)" if "length s - length r \<le> k" for k
        proof -
          from that len obtain k' where k: "k = Suc k'" by (cases k) auto
          with that l have "length cs - length r \<le> k'" by simp
          from rest [OF this] show ?thesis unfolding k unf .
        qed
        with len show ?thesis by blast
      next
        case False
        with True have bracket: "c = LBRACKET" by simp
        with nonempty have d: "d \<noteq> RBRACKET" by simp
        have unf: "parse_value (Suc a) s = parse_elements a [] cs" for a
          using sk sk2 bracket d by simp
        from pv unf have "parse_elements n [] cs = Some (v, r)" by simp
        from elems [OF this] have len': "length r < length cs"
          and rest: "\<And>k. length cs - length r \<le> k \<Longrightarrow> parse_elements k [] cs = Some (v, r)"
          by blast+
        from len' l have len: "length r < length s" by simp
        have "parse_value k s = Some (v, r)" if "length s - length r \<le> k" for k
        proof -
          from that len obtain k' where k: "k = Suc k'" by (cases k) auto
          with that l have "length cs - length r \<le> k'" by simp
          from rest [OF this] show ?thesis unfolding k unf .
        qed
        with len show ?thesis by blast
      qed
    qed
  qed
qed

lemma elements_step:
  assumes vals: "\<And>s v r. parse_value n s = Some (v, r) \<Longrightarrow>
        length r < length s \<and> (\<forall>k. length s - length r \<le> k \<longrightarrow> parse_value k s = Some (v, r))"
    and elems: "\<And>acc s v r. parse_elements n acc s = Some (v, r) \<Longrightarrow>
        length r < length s \<and> (\<forall>k. length s - length r \<le> k \<longrightarrow> parse_elements k acc s = Some (v, r))"
    and pe: "parse_elements (Suc n) acc s = Some (v, r)"
  shows "length r < length s \<and> (\<forall>k. length s - length r \<le> k \<longrightarrow> parse_elements k acc s = Some (v, r))"
proof -
  from pe obtain v1 r1 where pv: "parse_value n s = Some (v1, r1)"
    by (cases "parse_value n s") auto
  from pe pv obtain c cs where sk: "skip_ws r1 = c # cs"
    by (cases "skip_ws r1") auto
  from vals [OF pv] have l1: "length r1 < length s"
    and anyv: "\<And>k. length s - length r1 \<le> k \<Longrightarrow> parse_value k s = Some (v1, r1)" by blast+
  have l2: "length cs < length r1" using sk by (rule skip_ws_Cons_length)
  have unf: "parse_elements (Suc a) acc s =
      (if c = COMMA then parse_elements a (acc @ [v1]) cs
       else if c = RBRACKET then Some (JArr (acc @ [v1]), cs) else None)"
    if "parse_value a s = Some (v1, r1)" for a
    using that sk by simp
  show ?thesis
  proof (cases "c = COMMA")
    case True
    from pe unf [OF pv] True have "parse_elements n (acc @ [v1]) cs = Some (v, r)" by simp
    from elems [OF this] have l3: "length r < length cs"
      and anye: "\<And>k. length cs - length r \<le> k \<Longrightarrow> parse_elements k (acc @ [v1]) cs = Some (v, r)"
      by blast+
    from l1 l2 l3 have len: "length r < length s" by simp
    have "parse_elements k acc s = Some (v, r)" if "length s - length r \<le> k" for k
    proof -
      from that len obtain k' where k: "k = Suc k'" by (cases k) auto
      from that k l1 l2 l3 have a: "length s - length r1 \<le> k'" and b: "length cs - length r \<le> k'"
        by linarith+
      from unf [OF anyv [OF a]] anye [OF b] True show ?thesis
        by (simp add: k del: parse_elements.simps)
    qed
    with len show ?thesis by blast
  next
    case False
    with pe unf [OF pv] have c: "c = RBRACKET" and res: "v = JArr (acc @ [v1])" "r = cs"
      by (auto split: if_splits)
    from l1 l2 res have len: "length r < length s" by simp
    have "parse_elements k acc s = Some (v, r)" if "length s - length r \<le> k" for k
    proof -
      from that len obtain k' where k: "k = Suc k'" by (cases k) auto
      from res have "length r = length cs" by simp
      with that k l1 l2 have a: "length s - length r1 \<le> k'" by linarith
      from unf [OF anyv [OF a]] False c res show ?thesis by (simp add: k del: parse_elements.simps)
    qed
    with len show ?thesis by blast
  qed
qed

lemma members_step:
  assumes vals: "\<And>s v r. parse_value n s = Some (v, r) \<Longrightarrow>
        length r < length s \<and> (\<forall>k. length s - length r \<le> k \<longrightarrow> parse_value k s = Some (v, r))"
    and membs: "\<And>acc s v r. parse_members n acc s = Some (v, r) \<Longrightarrow>
        length r < length s \<and> (\<forall>k. length s - length r \<le> k \<longrightarrow> parse_members k acc s = Some (v, r))"
    and pm: "parse_members (Suc n) acc s = Some (v, r)"
  shows "length r < length s \<and> (\<forall>k. length s - length r \<le> k \<longrightarrow> parse_members k acc s = Some (v, r))"
proof -
  from pm obtain q qs where sk0: "skip_ws s = q # qs"
    by (cases "skip_ws s") auto
  from pm sk0 have q: "q = DQUOTE" by (auto split: if_splits)
  from pm sk0 q obtain key r0 where ps: "parse_string_body qs = Some (key, r0)"
    by (cases "parse_string_body qs") auto
  from pm sk0 q ps obtain c cs where sk1: "skip_ws r0 = c # cs"
    by (cases "skip_ws r0") auto
  from pm sk0 q ps sk1 have c: "c = COLON" by (auto split: if_splits)
  from pm sk0 q ps sk1 c obtain v1 r1 where pv: "parse_value n cs = Some (v1, r1)"
    by (cases "parse_value n cs") auto
  from pm sk0 q ps sk1 c pv obtain e es where sk2: "skip_ws r1 = e # es"
    by (cases "skip_ws r1") auto
  from vals [OF pv] have l3: "length r1 < length cs"
    and anyv: "\<And>k. length cs - length r1 \<le> k \<Longrightarrow> parse_value k cs = Some (v1, r1)" by blast+
  have l0: "length qs < length s" using sk0 by (rule skip_ws_Cons_length)
  have l1: "length r0 < length qs" using ps by (rule parse_string_body_length)
  have l2: "length cs < length r0" using sk1 by (rule skip_ws_Cons_length)
  have l4: "length es < length r1" using sk2 by (rule skip_ws_Cons_length)
  have unf: "parse_members (Suc a) acc s =
      (if e = COMMA then parse_members a (AList.update key v1 acc) es
       else if e = RBRACE then Some (JObj (AList.update key v1 acc), es) else None)"
    if "parse_value a cs = Some (v1, r1)" for a
    using that sk0 q ps sk1 c sk2 by simp
  show ?thesis
  proof (cases "e = COMMA")
    case True
    from pm unf [OF pv] True have "parse_members n (AList.update key v1 acc) es = Some (v, r)" by simp
    from membs [OF this] have l5: "length r < length es"
      and anym: "\<And>k. length es - length r \<le> k \<Longrightarrow> parse_members k (AList.update key v1 acc) es = Some (v, r)"
      by blast+
    from l0 l1 l2 l3 l4 l5 have len: "length r < length s" by simp
    have "parse_members k acc s = Some (v, r)" if "length s - length r \<le> k" for k
    proof -
      from that len obtain k' where k: "k = Suc k'" by (cases k) auto
      from that k l0 l1 l2 l3 l4 l5 have a: "length cs - length r1 \<le> k'" and b: "length es - length r \<le> k'"
        by linarith+
      from unf [OF anyv [OF a]] anym [OF b] True show ?thesis
        by (simp add: k del: parse_members.simps)
    qed
    with len show ?thesis by blast
  next
    case False
    with pm unf [OF pv] have e: "e = RBRACE" and res: "v = JObj (AList.update key v1 acc)" "r = es"
      by (auto split: if_splits)
    from l0 l1 l2 l3 l4 res have len: "length r < length s" by simp
    have "parse_members k acc s = Some (v, r)" if "length s - length r \<le> k" for k
    proof -
      from that len obtain k' where k: "k = Suc k'" by (cases k) auto
      from res have "length r = length es" by simp
      with that k l0 l1 l2 l3 l4 have a: "length cs - length r1 \<le> k'" by linarith
      from unf [OF anyv [OF a]] False e res show ?thesis by (simp add: k del: parse_members.simps)
    qed
    with len show ?thesis by blast
  qed
qed

lemma parse_fuel:
  "(\<forall>s v r. parse_value n s = Some (v, r) \<longrightarrow>
      length r < length s \<and> (\<forall>k. length s - length r \<le> k \<longrightarrow> parse_value k s = Some (v, r))) \<and>
   (\<forall>acc s v r. parse_elements n acc s = Some (v, r) \<longrightarrow>
      length r < length s \<and> (\<forall>k. length s - length r \<le> k \<longrightarrow> parse_elements k acc s = Some (v, r))) \<and>
   (\<forall>acc s v r. parse_members n acc s = Some (v, r) \<longrightarrow>
      length r < length s \<and> (\<forall>k. length s - length r \<le> k \<longrightarrow> parse_members k acc s = Some (v, r)))"
proof (induction n)
  case 0
  show ?case by simp
next
  case (Suc n)
  from Suc have vals: "\<And>s v r. parse_value n s = Some (v, r) \<Longrightarrow>
        length r < length s \<and> (\<forall>k. length s - length r \<le> k \<longrightarrow> parse_value k s = Some (v, r))"
    and elems: "\<And>acc s v r. parse_elements n acc s = Some (v, r) \<Longrightarrow>
        length r < length s \<and> (\<forall>k. length s - length r \<le> k \<longrightarrow> parse_elements k acc s = Some (v, r))"
    and membs: "\<And>acc s v r. parse_members n acc s = Some (v, r) \<Longrightarrow>
        length r < length s \<and> (\<forall>k. length s - length r \<le> k \<longrightarrow> parse_members k acc s = Some (v, r))"
    by blast+
  show ?case
    using value_step [OF elems membs] elements_step [OF vals elems] members_step [OF vals membs]
    by blast
qed

text \<open>The fuel of \<open>JSON_parse\<close> is enough: no larger fuel parses more.\<close>

lemma JSON_parse_fuel:
  "JSON_parse s = Some v \<longleftrightarrow> (\<exists>n r. parse_value n s = Some (v, r) \<and> skip_ws r = [])"
proof
  assume "JSON_parse s = Some v"
  then obtain r where "parse_value (Suc (length s)) s = Some (v, r)" and "skip_ws r = []"
    by (auto simp: JSON_parse_def simp del: parse_value.simps split: option.splits if_splits)
  then show "\<exists>n r. parse_value n s = Some (v, r) \<and> skip_ws r = []"
    by blast
next
  assume "\<exists>n r. parse_value n s = Some (v, r) \<and> skip_ws r = []"
  then obtain n r where p: "parse_value n s = Some (v, r)" and w: "skip_ws r = []" by blast
  from parse_fuel [of n] p have "\<forall>k. length s - length r \<le> k \<longrightarrow> parse_value k s = Some (v, r)"
    by blast
  moreover have "length s - length r \<le> Suc (length s)" by simp
  ultimately have "parse_value (Suc (length s)) s = Some (v, r)" by blast
  with w show "JSON_parse s = Some v" by (simp add: JSON_parse_def del: parse_value.simps)
qed

section \<open>Line breaks in the reference parser\<close>

text \<open>
  The reference parser reads line breaks as spaces: a text it accepts has the same value
  after \<open>replace_linebreaks\<close>. A line break is skipped as white space between the
  tokens, and no token that is accepted holds one.
\<close>

lemma lb_Cons: "c \<noteq> CR \<Longrightarrow> c \<noteq> LF \<Longrightarrow> replace_linebreaks (c # cs) = c # replace_linebreaks cs"
  by (cases cs) auto

lemma lb_prefix:
  "CR \<notin> set a \<Longrightarrow> LF \<notin> set a \<Longrightarrow> replace_linebreaks (a @ b) = a @ replace_linebreaks b"
  by (induction a) (auto simp: lb_Cons)

lemma lb_break:
  assumes "c = CR \<or> c = LF"
  shows "\<exists>r. replace_linebreaks (c # cs) = SPACE # replace_linebreaks r \<and> skip_ws (c # cs) = skip_ws r
           \<and> length r \<le> length cs"
proof (cases cs)
  case Nil
  with assms have "replace_linebreaks (c # cs) = SPACE # replace_linebreaks [] \<and> skip_ws (c # cs) = skip_ws []"
    by (auto simp: skip_ws_def is_json_ws_def)
  with Nil show ?thesis by auto
next
  case (Cons d ds)
  show ?thesis
  proof (cases "c = CR \<and> d = LF")
    case True
    with Cons have "replace_linebreaks (c # cs) = SPACE # replace_linebreaks ds \<and> skip_ws (c # cs) = skip_ws ds"
      by (auto simp: skip_ws_def is_json_ws_def)
    with Cons show ?thesis by auto
  next
    case False
    with assms Cons have "replace_linebreaks (c # cs) = SPACE # replace_linebreaks cs \<and> skip_ws (c # cs) = skip_ws cs"
      by (auto simp: skip_ws_def is_json_ws_def)
    then show ?thesis by auto
  qed
qed

lemma skip_ws_lb: "skip_ws (replace_linebreaks s) = replace_linebreaks (skip_ws s)"
proof (induction "length s" arbitrary: s rule: less_induct)
  case less
  show ?case
  proof (cases s)
    case Nil
    then show ?thesis by (simp add: skip_ws_def)
  next
    case (Cons c cs)
    show ?thesis
    proof (cases "c = CR \<or> c = LF")
      case True
      from lb_break [OF True, of cs] obtain r where
        r: "replace_linebreaks (c # cs) = SPACE # replace_linebreaks r" "skip_ws (c # cs) = skip_ws r"
          "length r \<le> length cs" by blast
      then have "length r < length s" using Cons by simp
      from less [OF this] r Cons show ?thesis
        by (simp add: skip_ws_def is_json_ws_def)
    next
      case False
      then have l: "replace_linebreaks (c # cs) = c # replace_linebreaks cs" by (simp add: lb_Cons)
      show ?thesis
      proof (cases "is_json_ws c")
        case True
        have "length cs < length s" using Cons by simp
        from less [OF this] True l Cons show ?thesis by (simp add: skip_ws_def)
      next
        case nw: False
        with l Cons show ?thesis by (simp add: skip_ws_def)
      qed
    qed
  qed
qed

lemma skip_ws_head: "skip_ws s = c # cs \<Longrightarrow> \<not> is_json_ws c"
  unfolding skip_ws_def using hd_dropWhile [of is_json_ws s] by auto

lemma skip_ws_lb_Cons:
  assumes "skip_ws s = c # cs"
  shows "skip_ws (replace_linebreaks s) = c # replace_linebreaks cs"
proof -
  from skip_ws_head [OF assms] have "c \<noteq> CR" "c \<noteq> LF" by (auto simp: is_json_ws_def)
  then show ?thesis using assms by (simp add: skip_ws_lb lb_Cons)
qed

lemma skip_ws_lb_Nil: "skip_ws s = [] \<Longrightarrow> skip_ws (replace_linebreaks s) = []"
  by (simp add: skip_ws_lb)

lemma lb_Nil_iff: "replace_linebreaks s = [] \<longleftrightarrow> s = []"
  by (induction s rule: replace_linebreaks.induct) auto

lemma lb_shape:
  obtains (empty) "s = []"
  | (plain) c cs where "s = c # cs" "c \<noteq> CR" "c \<noteq> LF" "replace_linebreaks s = c # replace_linebreaks cs"
  | (break) c cs r where "s = c # cs" "c = CR \<or> c = LF" "replace_linebreaks s = SPACE # replace_linebreaks r"
proof (cases s)
  case Nil
  then show ?thesis by (rule empty)
next
  case (Cons c cs)
  show ?thesis
  proof (cases "c = CR \<or> c = LF")
    case True
    from lb_break [OF True, of cs] obtain r where "replace_linebreaks (c # cs) = SPACE # replace_linebreaks r"
      by blast
    with Cons True show ?thesis by (intro break) auto
  next
    case False
    with Cons show ?thesis by (intro plain) (auto simp: lb_Cons)
  qed
qed

text \<open>Characters of tokens: a test for one of them sees the same head before and
  after the replacement.\<close>

lemma lb_head_test:
  assumes "x \<noteq> SPACE" "x \<noteq> CR" "x \<noteq> LF"
  shows "(case replace_linebreaks s of [] \<Rightarrow> False | c # cs \<Rightarrow> c = x) = (case s of [] \<Rightarrow> False | c # cs \<Rightarrow> c = x)"
  using assms by (cases s rule: lb_shape) auto

lemma lb_tl: "s = c # cs \<Longrightarrow> c \<noteq> CR \<Longrightarrow> c \<noteq> LF \<Longrightarrow> tl (replace_linebreaks s) = replace_linebreaks (tl s)"
  by (simp add: lb_Cons)

lemma not_digit_break: "\<not> is_digit SPACE" "\<not> is_digit CR" "\<not> is_digit LF"
  by (simp_all add: is_digit_def)

lemma takeWhile_digit_lb: "takeWhile is_digit (replace_linebreaks s) = takeWhile is_digit s"
proof (induction s)
  case Nil
  then show ?case by simp
next
  case (Cons c cs)
  show ?case
  proof (cases "is_digit c")
    case True
    then have "c \<noteq> CR" "c \<noteq> LF" by (auto simp: is_digit_def)
    with True Cons show ?thesis by (simp add: lb_Cons)
  next
    case False
    then show ?thesis
      by (cases "c # cs" rule: lb_shape) (auto simp: not_digit_break)
  qed
qed

lemma dropWhile_digit_lb:
  "dropWhile is_digit (replace_linebreaks s) = replace_linebreaks (dropWhile is_digit s)"
proof (induction s)
  case Nil
  then show ?case by simp
next
  case (Cons c cs)
  show ?case
  proof (cases "is_digit c")
    case True
    then have "c \<noteq> CR" "c \<noteq> LF" by (auto simp: is_digit_def)
    with True Cons show ?thesis by (simp add: lb_Cons)
  next
    case False
    then show ?thesis
      by (cases "c # cs" rule: lb_shape) (auto simp: not_digit_break)
  qed
qed

lemma parse_fraction_lb:
  "parse_fraction (replace_linebreaks s) = map_option (\<lambda>(fp, r). (fp, replace_linebreaks r)) (parse_fraction s)"
proof (cases s rule: lb_shape)
  case empty
  then show ?thesis by (simp add: parse_fraction_def)
next
  case (plain c cs)
  then show ?thesis
    by (simp add: parse_fraction_def Let_def takeWhile_digit_lb dropWhile_digit_lb)
next
  case (break c cs r)
  then show ?thesis
    by (auto simp: parse_fraction_def Let_def)
qed

lemma parse_exponent_lb:
  "parse_exponent (replace_linebreaks s) = map_option (\<lambda>(e, r). (e, replace_linebreaks r)) (parse_exponent s)"
proof (cases s rule: lb_shape)
  case empty
  then show ?thesis by (simp add: parse_exponent_def)
next
  case (break c cs r)
  then show ?thesis
    by (auto simp: parse_exponent_def Let_def)
next
  case (plain c cs)
  show ?thesis
  proof (cases "c = 101 \<or> c = 69")
    case False
    with plain show ?thesis by (simp add: parse_exponent_def)
  next
    case True
    define neg where "neg = (case cs of [] \<Rightarrow> False | d # ds \<Rightarrow> d = 45)"
    define signed where "signed = (case cs of [] \<Rightarrow> False | d # ds \<Rightarrow> d = 45 \<or> d = 43)"
    define body where "body = (if signed then tl cs else cs)"
    have neg': "(case replace_linebreaks cs of [] \<Rightarrow> False | d # ds \<Rightarrow> d = 45) = neg"
      unfolding neg_def by (rule lb_head_test) simp_all
    have signed': "(case replace_linebreaks cs of [] \<Rightarrow> False | d # ds \<Rightarrow> d = 45 \<or> d = 43) = signed"
      unfolding signed_def by (cases cs rule: lb_shape) auto
    have body': "(if signed then tl (replace_linebreaks cs) else replace_linebreaks cs) = replace_linebreaks body"
    proof (cases signed)
      case False
      then show ?thesis by (simp add: body_def)
    next
      case True
      then obtain d ds where "cs = d # ds" "d = 45 \<or> d = 43"
        unfolding signed_def by (cases cs) auto
      then have "tl (replace_linebreaks cs) = replace_linebreaks (tl cs)"
        by (intro lb_tl) auto
      with True show ?thesis by (simp add: body_def)
    qed
    have lhs: "parse_exponent (replace_linebreaks s) =
        (let ds = takeWhile is_digit (replace_linebreaks body)
         in if ds = [] then None
            else Some ((if neg then - int (digits_value ds) else int (digits_value ds)),
                       dropWhile is_digit (replace_linebreaks body)))"
      using plain True by (simp add: parse_exponent_def Let_def neg' signed' body')
    have rhs: "parse_exponent s =
        (let ds = takeWhile is_digit body
         in if ds = [] then None
            else Some ((if neg then - int (digits_value ds) else int (digits_value ds)),
                       dropWhile is_digit body))"
      using plain True by (simp add: parse_exponent_def Let_def neg_def signed_def body_def)
    show ?thesis
      unfolding lhs rhs by (simp add: Let_def takeWhile_digit_lb dropWhile_digit_lb)
  qed
qed

lemma parse_number_lb:
  "parse_number (replace_linebreaks s) = map_option (\<lambda>(q, r). (q, replace_linebreaks r)) (parse_number s)"
proof (cases "case s of [] \<Rightarrow> False | c # cs \<Rightarrow> c = 45")
  case True
  then obtain cs where s: "s = 45 # cs" by (cases s) auto
  then have l: "replace_linebreaks s = 45 # replace_linebreaks cs" by (simp add: lb_Cons)
  show ?thesis
    unfolding s l [unfolded s]
    by (simp add: parse_number_def Let_def takeWhile_digit_lb dropWhile_digit_lb
          parse_fraction_lb parse_exponent_lb split: option.splits)
next
  case False
  then have n1: "(case s of [] \<Rightarrow> False | c # cs \<Rightarrow> c = 45) = False" by simp
  have n2: "(case replace_linebreaks s of [] \<Rightarrow> False | c # cs \<Rightarrow> c = 45) = False"
    using lb_head_test [of 45 s] n1 by simp
  show ?thesis
    by (simp add: parse_number_def Let_def n1 n2 takeWhile_digit_lb dropWhile_digit_lb
          parse_fraction_lb parse_exponent_lb split: option.splits)
qed

lemma hex_value_not_break: "hex_value h = Some u \<Longrightarrow> h \<noteq> CR \<and> h \<noteq> LF"
  by (auto simp: hex_value_def split: if_splits)

lemma hex4_not_break:
  "hex4 a b c d = Some u \<Longrightarrow> CR \<notin> set [a, b, c, d] \<and> LF \<notin> set [a, b, c, d]"
  using hex_value_not_break [of a] hex_value_not_break [of b] hex_value_not_break [of c]
    hex_value_not_break [of d]
  by (auto simp: hex4_def split: option.splits)

lemma escape_char_not_break: "escape_char e = Some x \<Longrightarrow> e \<noteq> CR \<and> e \<noteq> LF"
  by (auto simp: escape_char_def split: if_splits)

lemma consed_Some_iff: "consed c x = Some (str, r) \<longleftrightarrow> (\<exists>str'. x = Some (str', r) \<and> str = c # str')"
  by (cases x) (auto simp: consed_def)

lemma parse_string_body_lb:
  "parse_string_body s = Some (str, r) \<Longrightarrow>
     parse_string_body (replace_linebreaks s) = Some (str, replace_linebreaks r)"
proof (induction "length s" arbitrary: s str r rule: less_induct)
  case less
  from less.prems obtain c cs where s: "s = c # cs" by (cases s) auto
  note shorter = less.hyps
  show ?case
  proof (cases "c = DQUOTE")
    case True
    with less.prems s show ?thesis by (simp add: lb_Cons)
  next
    case nq: False
    show ?thesis
    proof (cases "c = BACKSLASH")
      case bs: True
      from less.prems s bs obtain e es where cs: "cs = e # es"
        by (cases cs) auto
      show ?thesis
      proof (cases "e = 117")
        case u: True
        have step: "parse_string_body s =
            (case es of
               h1 # h2 # h3 # h4 # rest \<Rightarrow>
                 (case hex4 h1 h2 h3 h4 of
                    None \<Rightarrow> None
                  | Some u \<Rightarrow> consed u (parse_string_body rest))
             | _ \<Rightarrow> None)"
          unfolding s cs using bs u by simp
        from less.prems step obtain h1 h2 h3 h4 rest where es: "es = h1 # h2 # h3 # h4 # rest"
          by (simp split: list.splits)
        from less.prems step es obtain uu where hx: "hex4 h1 h2 h3 h4 = Some uu"
          and cons: "consed uu (parse_string_body rest) = Some (str, r)"
          by (simp split: option.splits)
        from cons obtain str' where rec: "parse_string_body rest = Some (str', r)" and str: "str = uu # str'"
          by (auto simp: consed_Some_iff)
        have "length rest < length s" by (simp add: s cs es)
        from shorter [OF this rec]
        have ih: "parse_string_body (replace_linebreaks rest) = Some (str', replace_linebreaks r)" .
        have "CR \<notin> set [c, e, h1, h2, h3, h4]" "LF \<notin> set [c, e, h1, h2, h3, h4]"
          using hex4_not_break [OF hx] bs u by auto
        then have "replace_linebreaks ([c, e, h1, h2, h3, h4] @ rest) =
            [c, e, h1, h2, h3, h4] @ replace_linebreaks rest"
          by (rule lb_prefix)
        then have l: "replace_linebreaks s = c # e # h1 # h2 # h3 # h4 # replace_linebreaks rest"
          by (simp add: s cs es)
        show ?thesis
          unfolding l using bs u hx ih str by (simp add: consed_def)
      next
        case nu: False
        have step: "parse_string_body s =
            (case escape_char e of None \<Rightarrow> None | Some x \<Rightarrow> consed x (parse_string_body es))"
          unfolding s cs using bs nu by simp
        from less.prems step obtain x where ec: "escape_char e = Some x"
          and cons: "consed x (parse_string_body es) = Some (str, r)"
          by (simp split: option.splits)
        from cons obtain str' where rec: "parse_string_body es = Some (str', r)" and str: "str = x # str'"
          by (auto simp: consed_Some_iff)
        have "length es < length s" by (simp add: s cs)
        from shorter [OF this rec]
        have ih: "parse_string_body (replace_linebreaks es) = Some (str', replace_linebreaks r)" .
        have "CR \<notin> set [c, e]" "LF \<notin> set [c, e]"
          using escape_char_not_break [OF ec] bs by auto
        then have "replace_linebreaks ([c, e] @ es) = [c, e] @ replace_linebreaks es"
          by (rule lb_prefix)
        then have l: "replace_linebreaks s = c # e # replace_linebreaks es"
          by (simp add: s cs)
        show ?thesis
          unfolding l using bs nu ec ih str by (simp add: consed_def)
      qed
    next
      case nb: False
      have step: "parse_string_body s = (if c < 32 then None else consed c (parse_string_body cs))"
        unfolding s using nq nb by simp
      from less.prems step have c32: "\<not> c < 32" and cons: "consed c (parse_string_body cs) = Some (str, r)"
        by (simp_all split: if_splits)
      from cons obtain str' where rec: "parse_string_body cs = Some (str', r)" and str: "str = c # str'"
        by (auto simp: consed_Some_iff)
      have "length cs < length s" by (simp add: s)
      from shorter [OF this rec]
      have ih: "parse_string_body (replace_linebreaks cs) = Some (str', replace_linebreaks r)" .
      from c32 have "c \<noteq> CR" "c \<noteq> LF" by auto
      then have l: "replace_linebreaks s = c # replace_linebreaks cs" by (simp add: s lb_Cons)
      show ?thesis
        unfolding l using nq nb c32 ih str by (simp add: consed_def)
    qed
  qed
qed

text \<open>A keyword is found at the start of the text before the replacement exactly when
  it is found there after it.\<close>

lemma take_lb:
  assumes "\<forall>c \<in> set x. c \<noteq> SPACE \<and> c \<noteq> CR \<and> c \<noteq> LF"
  shows "take (length x) (replace_linebreaks s) = x \<longleftrightarrow> take (length x) s = x"
  using assms
proof (induction x arbitrary: s)
  case Nil
  then show ?case by simp
next
  case (Cons a x)
  show ?case
  proof (cases s rule: lb_shape)
    case empty
    then show ?thesis by simp
  next
    case (plain c cs)
    with Cons show ?thesis by simp
  next
    case (break c cs r)
    with Cons.prems show ?thesis by auto
  qed
qed

lemma drop_lb:
  assumes "\<forall>c \<in> set x. c \<noteq> SPACE \<and> c \<noteq> CR \<and> c \<noteq> LF" and "take (length x) s = x"
  shows "drop (length x) (replace_linebreaks s) = replace_linebreaks (drop (length x) s)"
proof -
  have s: "s = x @ drop (length x) s" using assms(2) by (metis append_take_drop_id)
  have "CR \<notin> set x" "LF \<notin> set x" using assms(1) by auto
  then have "replace_linebreaks (x @ drop (length x) s) = x @ replace_linebreaks (drop (length x) s)"
    by (rule lb_prefix)
  with s have "replace_linebreaks s = x @ replace_linebreaks (drop (length x) s)" by simp
  then show ?thesis by simp
qed

lemma keyword_facts:
  "length (js ''true'') = 4" "length (js ''false'') = 5" "length (js ''null'') = 4"
  "\<forall>c \<in> set (js ''true''). c \<noteq> SPACE \<and> c \<noteq> CR \<and> c \<noteq> LF"
  "\<forall>c \<in> set (js ''false''). c \<noteq> SPACE \<and> c \<noteq> CR \<and> c \<noteq> LF"
  "\<forall>c \<in> set (js ''null''). c \<noteq> SPACE \<and> c \<noteq> CR \<and> c \<noteq> LF"
  by (simp_all add: js_def)

lemma keyword_lb:
  "take 4 (replace_linebreaks s) = js ''true'' \<longleftrightarrow> take 4 s = js ''true''"
  "take 5 (replace_linebreaks s) = js ''false'' \<longleftrightarrow> take 5 s = js ''false''"
  "take 4 (replace_linebreaks s) = js ''null'' \<longleftrightarrow> take 4 s = js ''null''"
  using take_lb [OF keyword_facts(4), of s] take_lb [OF keyword_facts(5), of s]
    take_lb [OF keyword_facts(6), of s]
  unfolding keyword_facts(1,2,3) by blast+

lemma keyword_drop_lb:
  "take 4 s = js ''true'' \<Longrightarrow> drop 4 (replace_linebreaks s) = replace_linebreaks (drop 4 s)"
  "take 5 s = js ''false'' \<Longrightarrow> drop 5 (replace_linebreaks s) = replace_linebreaks (drop 5 s)"
  "take 4 s = js ''null'' \<Longrightarrow> drop 4 (replace_linebreaks s) = replace_linebreaks (drop 4 s)"
  using drop_lb [OF keyword_facts(4), of s] drop_lb [OF keyword_facts(5), of s]
    drop_lb [OF keyword_facts(6), of s]
  unfolding keyword_facts(1,2,3) by blast+

lemma value_lb_step:
  assumes elems: "\<And>acc s v r. parse_elements n acc s = Some (v, r) \<Longrightarrow>
        parse_elements n acc (replace_linebreaks s) = Some (v, replace_linebreaks r)"
    and membs: "\<And>acc s v r. parse_members n acc s = Some (v, r) \<Longrightarrow>
        parse_members n acc (replace_linebreaks s) = Some (v, replace_linebreaks r)"
    and pv: "parse_value (Suc n) s = Some (v, r)"
  shows "parse_value (Suc n) (replace_linebreaks s) = Some (v, replace_linebreaks r)"
proof -
  from pv obtain c cs where sk: "skip_ws s = c # cs"
    by (cases "skip_ws s") auto
  have sk': "skip_ws (replace_linebreaks s) = c # replace_linebreaks cs"
    using sk by (rule skip_ws_lb_Cons)
  from skip_ws_head [OF sk] have nb: "c \<noteq> CR" "c \<noteq> LF" by (auto simp: is_json_ws_def)
  have whole: "replace_linebreaks (c # cs) = c # replace_linebreaks cs"
    using nb by (simp add: lb_Cons)
  show ?thesis
  proof (cases "c = LBRACE \<or> c = LBRACKET")
    case False
    then have sc: "c \<noteq> LBRACE" "c \<noteq> LBRACKET" by auto
    show ?thesis
    proof (cases "c = DQUOTE")
      case True
      with pv sk sc obtain str where ps: "parse_string_body cs = Some (str, r)" and v: "v = JStr str"
        by auto
      from parse_string_body_lb [OF ps] True sc v sk' show ?thesis by simp
    next
      case nq: False
      have old: "parse_value (Suc n) s =
          (if take 4 (c # cs) = js ''true'' then Some (JBool True, drop 4 (c # cs))
           else if take 5 (c # cs) = js ''false'' then Some (JBool False, drop 5 (c # cs))
           else if take 4 (c # cs) = js ''null'' then Some (JNull, drop 4 (c # cs))
           else map_option (\<lambda>(q, rest). (JNum q, rest)) (parse_number (c # cs)))"
        using sk sc nq by simp
      have new: "parse_value (Suc n) (replace_linebreaks s) =
          (if take 4 (replace_linebreaks (c # cs)) = js ''true''
             then Some (JBool True, drop 4 (replace_linebreaks (c # cs)))
           else if take 5 (replace_linebreaks (c # cs)) = js ''false''
             then Some (JBool False, drop 5 (replace_linebreaks (c # cs)))
           else if take 4 (replace_linebreaks (c # cs)) = js ''null''
             then Some (JNull, drop 4 (replace_linebreaks (c # cs)))
           else map_option (\<lambda>(q, rest). (JNum q, rest)) (parse_number (replace_linebreaks (c # cs))))"
        unfolding whole using sk' sc nq by simp
      show ?thesis
      proof (cases "take 4 (c # cs) = js ''true''")
        case True
        with pv old have "v = JBool True" "r = drop 4 (c # cs)" by simp_all
        with True show ?thesis
          unfolding new by (simp only: keyword_lb keyword_drop_lb simp_thms if_True if_False)
      next
        case nt: False
        show ?thesis
        proof (cases "take 5 (c # cs) = js ''false''")
          case True
          with pv old nt have "v = JBool False" "r = drop 5 (c # cs)" by simp_all
          with True nt show ?thesis
            unfolding new by (simp only: keyword_lb keyword_drop_lb simp_thms if_True if_False)
        next
          case nf: False
          show ?thesis
          proof (cases "take 4 (c # cs) = js ''null''")
            case True
            with pv old nt nf have "v = JNull" "r = drop 4 (c # cs)" by simp_all
            with True nt nf show ?thesis
              unfolding new by (simp only: keyword_lb keyword_drop_lb simp_thms if_True if_False)
          next
            case nn: False
            from pv have "map_option (\<lambda>(q, rest). (JNum q, rest)) (parse_number (c # cs)) = Some (v, r)"
              unfolding old using nt nf nn by (simp only: if_False)
            then obtain q where pn: "parse_number (c # cs) = Some (q, r)" and v: "v = JNum q"
              by auto
            have "parse_number (replace_linebreaks (c # cs)) = Some (q, replace_linebreaks r)"
              using pn by (simp add: parse_number_lb)
            with nt nf nn v show ?thesis
              unfolding new by (simp only: keyword_lb simp_thms if_False) simp
          qed
        qed
      qed
    qed
  next
    case True
    from pv sk True obtain d ds where sk2: "skip_ws cs = d # ds"
      by (cases "skip_ws cs") auto
    have sk2': "skip_ws (replace_linebreaks cs) = d # replace_linebreaks ds"
      using sk2 by (rule skip_ws_lb_Cons)
    show ?thesis
    proof (cases "(c = LBRACE \<and> d = RBRACE) \<or> (c = LBRACKET \<and> d = RBRACKET)")
      case empty: True
      with pv sk sk2 have "r = ds" "v = (if c = LBRACE then JObj [] else JArr [])" by auto
      with empty sk' sk2' show ?thesis by auto
    next
      case nonempty: False
      show ?thesis
      proof (cases "c = LBRACE")
        case brace: True
        with nonempty have d: "d \<noteq> RBRACE" by simp
        have unf: "parse_value (Suc n) s = parse_members n [] cs"
          using sk sk2 brace d by simp
        have unf': "parse_value (Suc n) (replace_linebreaks s) = parse_members n [] (replace_linebreaks cs)"
          using sk' sk2' brace d by simp
        from pv unf have "parse_members n [] cs = Some (v, r)" by simp
        from membs [OF this] show ?thesis unfolding unf' .
      next
        case False
        with True have bracket: "c = LBRACKET" by simp
        with nonempty have d: "d \<noteq> RBRACKET" by simp
        have unf: "parse_value (Suc n) s = parse_elements n [] cs"
          using sk sk2 bracket d by simp
        have unf': "parse_value (Suc n) (replace_linebreaks s) = parse_elements n [] (replace_linebreaks cs)"
          using sk' sk2' bracket d by simp
        from pv unf have "parse_elements n [] cs = Some (v, r)" by simp
        from elems [OF this] show ?thesis unfolding unf' .
      qed
    qed
  qed
qed

lemma elements_lb_step:
  assumes vals: "\<And>s v r. parse_value n s = Some (v, r) \<Longrightarrow>
        parse_value n (replace_linebreaks s) = Some (v, replace_linebreaks r)"
    and elems: "\<And>acc s v r. parse_elements n acc s = Some (v, r) \<Longrightarrow>
        parse_elements n acc (replace_linebreaks s) = Some (v, replace_linebreaks r)"
    and pe: "parse_elements (Suc n) acc s = Some (v, r)"
  shows "parse_elements (Suc n) acc (replace_linebreaks s) = Some (v, replace_linebreaks r)"
proof -
  from pe obtain v1 r1 where pv: "parse_value n s = Some (v1, r1)"
    by (cases "parse_value n s") auto
  from pe pv obtain c cs where sk: "skip_ws r1 = c # cs"
    by (cases "skip_ws r1") auto
  have sk': "skip_ws (replace_linebreaks r1) = c # replace_linebreaks cs"
    using sk by (rule skip_ws_lb_Cons)
  note pv' = vals [OF pv]
  show ?thesis
  proof (cases "c = COMMA")
    case True
    from pe pv sk True have "parse_elements n (acc @ [v1]) cs = Some (v, r)" by simp
    from elems [OF this] pv' sk' True show ?thesis by simp
  next
    case False
    with pe pv sk have "c = RBRACKET" "v = JArr (acc @ [v1])" "r = cs"
      by (auto split: if_splits)
    with pv' sk' show ?thesis by simp
  qed
qed

lemma members_lb_step:
  assumes vals: "\<And>s v r. parse_value n s = Some (v, r) \<Longrightarrow>
        parse_value n (replace_linebreaks s) = Some (v, replace_linebreaks r)"
    and membs: "\<And>acc s v r. parse_members n acc s = Some (v, r) \<Longrightarrow>
        parse_members n acc (replace_linebreaks s) = Some (v, replace_linebreaks r)"
    and pm: "parse_members (Suc n) acc s = Some (v, r)"
  shows "parse_members (Suc n) acc (replace_linebreaks s) = Some (v, replace_linebreaks r)"
proof -
  from pm obtain q qs where sk0: "skip_ws s = q # qs"
    by (cases "skip_ws s") auto
  from pm sk0 have q: "q = DQUOTE" by (auto split: if_splits)
  from pm sk0 q obtain key r0 where ps: "parse_string_body qs = Some (key, r0)"
    by (cases "parse_string_body qs") auto
  from pm sk0 q ps obtain c cs where sk1: "skip_ws r0 = c # cs"
    by (cases "skip_ws r0") auto
  from pm sk0 q ps sk1 have c: "c = COLON" by (auto split: if_splits)
  from pm sk0 q ps sk1 c obtain v1 r1 where pv: "parse_value n cs = Some (v1, r1)"
    by (cases "parse_value n cs") auto
  from pm sk0 q ps sk1 c pv obtain e es where sk2: "skip_ws r1 = e # es"
    by (cases "skip_ws r1") auto
  have sk0': "skip_ws (replace_linebreaks s) = q # replace_linebreaks qs"
    using sk0 by (rule skip_ws_lb_Cons)
  have sk1': "skip_ws (replace_linebreaks r0) = c # replace_linebreaks cs"
    using sk1 by (rule skip_ws_lb_Cons)
  have sk2': "skip_ws (replace_linebreaks r1) = e # replace_linebreaks es"
    using sk2 by (rule skip_ws_lb_Cons)
  note ps' = parse_string_body_lb [OF ps]
  note pv' = vals [OF pv]
  have unf: "parse_members (Suc n) acc s =
      (if e = COMMA then parse_members n (AList.update key v1 acc) es
       else if e = RBRACE then Some (JObj (AList.update key v1 acc), es) else None)"
    using sk0 q ps sk1 c pv sk2 by simp
  have unf': "parse_members (Suc n) acc (replace_linebreaks s) =
      (if e = COMMA then parse_members n (AList.update key v1 acc) (replace_linebreaks es)
       else if e = RBRACE then Some (JObj (AList.update key v1 acc), replace_linebreaks es) else None)"
    using sk0' q ps' sk1' c pv' sk2' by simp
  show ?thesis
  proof (cases "e = COMMA")
    case True
    from pm unf True have "parse_members n (AList.update key v1 acc) es = Some (v, r)" by simp
    from membs [OF this] True show ?thesis unfolding unf' by simp
  next
    case False
    with pm unf have "e = RBRACE" "v = JObj (AList.update key v1 acc)" "r = es"
      by (auto split: if_splits)
    with False show ?thesis unfolding unf' by simp
  qed
qed

lemma parse_lb:
  "(\<forall>s v r. parse_value n s = Some (v, r) \<longrightarrow>
      parse_value n (replace_linebreaks s) = Some (v, replace_linebreaks r)) \<and>
   (\<forall>acc s v r. parse_elements n acc s = Some (v, r) \<longrightarrow>
      parse_elements n acc (replace_linebreaks s) = Some (v, replace_linebreaks r)) \<and>
   (\<forall>acc s v r. parse_members n acc s = Some (v, r) \<longrightarrow>
      parse_members n acc (replace_linebreaks s) = Some (v, replace_linebreaks r))"
proof (induction n)
  case 0
  show ?case by simp
next
  case (Suc n)
  from Suc have vals: "\<And>s v r. parse_value n s = Some (v, r) \<Longrightarrow>
        parse_value n (replace_linebreaks s) = Some (v, replace_linebreaks r)"
    and elems: "\<And>acc s v r. parse_elements n acc s = Some (v, r) \<Longrightarrow>
        parse_elements n acc (replace_linebreaks s) = Some (v, replace_linebreaks r)"
    and membs: "\<And>acc s v r. parse_members n acc s = Some (v, r) \<Longrightarrow>
        parse_members n acc (replace_linebreaks s) = Some (v, replace_linebreaks r)"
    by blast+
  show ?case
    using value_lb_step [OF elems membs] elements_lb_step [OF vals elems] members_lb_step [OF vals membs]
    by blast
qed

text \<open>The reference parser reads line breaks as whitespace: a text that parses still
  parses, to the same value, when its line breaks are replaced by spaces.\<close>

lemma JSON_parse_linebreaks:
  assumes "JSON_parse s = Some v"
  shows "JSON_parse (replace_linebreaks s) = Some v"
proof -
  from assms obtain r where p: "parse_value (Suc (length s)) s = Some (v, r)" and w: "skip_ws r = []"
    by (auto simp: JSON_parse_def simp del: parse_value.simps split: option.splits if_splits)
  from parse_lb [of "Suc (length s)"] p
  have "parse_value (Suc (length s)) (replace_linebreaks s) = Some (v, replace_linebreaks r)"
    by blast
  moreover have "skip_ws (replace_linebreaks r) = []" using w by (rule skip_ws_lb_Nil)
  ultimately show ?thesis
    using JSON_parse_fuel [of "replace_linebreaks s" v] by blast
qed

section \<open>Facts about the extraction\<close>

lemma longest_to_brace_None: "longest_to_brace s = None \<longleftrightarrow> RBRACE \<notin> set s"
  by (induction s) (auto split: option.splits)

lemma longest_to_brace_rev:
  "longest_to_brace s =
     (let u = rev (dropWhile (\<lambda>c. c \<noteq> RBRACE) (rev s)) in if u = [] then None else Some u)"
proof (induction s)
  case Nil
  then show ?case by simp
next
  case (Cons c cs)
  show ?case
  proof (cases "RBRACE \<in> set cs")
    case True
    then have "dropWhile (\<lambda>c. c \<noteq> RBRACE) (rev cs @ [c]) = dropWhile (\<lambda>c. c \<noteq> RBRACE) (rev cs) @ [c]"
      by (simp add: dropWhile_append1)
    moreover from True have "dropWhile (\<lambda>c. c \<noteq> RBRACE) (rev cs) \<noteq> []"
      by (simp add: dropWhile_eq_Nil_conv)
    ultimately show ?thesis using Cons True by (simp add: Let_def)
  next
    case False
    then have n: "longest_to_brace cs = None" by (simp add: longest_to_brace_None)
    from False have "dropWhile (\<lambda>c. c \<noteq> RBRACE) (rev cs @ [c]) = dropWhile (\<lambda>c. c \<noteq> RBRACE) [c]"
      by (intro dropWhile_append2) auto
    then show ?thesis using n by (simp add: Let_def)
  qed
qed

lemma match_braces_no_brace: "RBRACE \<notin> set s \<Longrightarrow> match_braces s = None"
proof (induction s)
  case Nil
  then show ?case by simp
next
  case (Cons c cs)
  then have "longest_to_brace cs = None" by (simp add: longest_to_brace_None)
  with Cons show ?case by simp
qed

lemma match_braces_span: "match_braces t = brace_span t"
proof (induction t)
  case Nil
  then show ?case by (simp add: brace_span_def)
next
  case (Cons c cs)
  show ?case
  proof (cases "c = LBRACE")
    case True
    show ?thesis
    proof (cases "longest_to_brace cs")
      case None
      then have "RBRACE \<notin> set cs" by (simp add: longest_to_brace_None)
      then have "match_braces cs = None" by (rule match_braces_no_brace)
      with None True show ?thesis
        using longest_to_brace_rev [of cs] by (auto simp: brace_span_def Let_def split: if_splits)
    next
      case (Some m)
      with True show ?thesis
        using longest_to_brace_rev [of cs] by (simp add: brace_span_def Let_def split: if_splits)
    qed
  next
    case False
    with Cons show ?thesis by (simp add: brace_span_def)
  qed
qed

lemma brace_span_Nil: "brace_span [] = None"
  by (simp add: brace_span_def)

lemma safeParseJSON_Text:
  "fst (safeParseJSON parse (Text t)) =
     (if t = [] then JNull
      else case parse t of
             Some v \<Rightarrow> v
           | None \<Rightarrow>
               (case match_braces t of
                  None \<Rightarrow> JNull
                | Some m \<Rightarrow> (case parse (cleaned m) of Some v \<Rightarrow> v | None \<Rightarrow> JNull)))"
  by (simp add: safeParseJSON_def split: option.splits)

lemma JSON_parse_empty: "JSON_parse [] = None"
  by (simp add: JSON_parse_def skip_ws_def)

lemma replace_quotes_id: "SQUOTE \<notin> set s \<Longrightarrow> replace_quotes s = s"
  unfolding replace_quotes_def by (induction s) auto

lemma brace_span_extract:
  assumes "LBRACE \<notin> set pre" and "RBRACE \<notin> set post"
  shows "brace_span (pre @ LBRACE # mid @ RBRACE # post) = Some (LBRACE # mid @ [RBRACE])"
proof -
  have a: "dropWhile (\<lambda>c. c \<noteq> LBRACE) (pre @ LBRACE # mid @ RBRACE # post) = LBRACE # mid @ RBRACE # post"
    using assms(1) by (subst dropWhile_append2) auto
  have b: "dropWhile (\<lambda>c. c \<noteq> RBRACE) (rev post @ RBRACE # rev mid) = RBRACE # rev mid"
    using assms(2) by (subst dropWhile_append2) auto
  show ?thesis
    by (simp add: brace_span_def a b)
qed

lemma match_braces_nonempty: "match_braces t = Some m \<Longrightarrow> t \<noteq> [] \<and> m \<noteq> []"
  by (induction t) (auto split: if_splits option.splits)

section \<open>Facts about the repairs\<close>

text \<open>
  Each replacement of the source does what the specification says of it.
\<close>

lemma collapse_after_eq:
  "collapse_after p s =
     (if p = Some CR then (case s of [] \<Rightarrow> [] | c # cs \<Rightarrow> if c = LF then replace_linebreaks cs else replace_linebreaks s)
      else replace_linebreaks s)"
proof (induction s arbitrary: p)
  case Nil
  show ?case by simp
next
  case (Cons c cs)
  have "collapse_after p (c # cs) =
      (if c = LF \<and> p = Some CR then [] else if c = CR \<or> c = LF then [SPACE] else [c]) @
      (if c = CR then (case cs of [] \<Rightarrow> [] | d # ds \<Rightarrow> if d = LF then replace_linebreaks ds else replace_linebreaks cs)
       else replace_linebreaks cs)"
    by (simp only: collapse_after.simps Cons.IH option.inject)
  then show ?case
    by (cases cs) auto
qed

lemma collapse_line_breaks_eq: "replace_linebreaks s = collapse_line_breaks s"
  by (simp add: collapse_line_breaks_def collapse_after_eq)

lemma single_to_double_quotes_eq: "replace_quotes s = single_to_double_quotes s"
  by (induction s) (simp_all add: replace_quotes_def)

lemma next_is_eq: "next_is k s = closer_follows k s"
  by (induction s) (auto simp: next_is_def closer_follows_def)

lemma next_is_Cons: "next_is k (c # cs) = (if is_space c then next_is k cs else c = k)"
  by (auto simp: next_is_def)

lemma next_is_Nil: "\<not> next_is k []"
  by (simp add: next_is_def)

lemma next_is_dropWhile: "next_is k s \<longleftrightarrow> (\<exists>rest. dropWhile is_space s = k # rest)"
  by (induction s) (auto simp: next_is_Cons next_is_Nil)

lemma comma_not_space: "\<not> is_space COMMA"
  by (simp add: is_space_def)

lemma delete_pending_whitespace:
  assumes "k \<noteq> COMMA" and "\<not> is_space k"
    and "next_is COMMA before" and "dropWhile is_space s = k # rest"
  shows "\<exists>before'. \<not> next_is COMMA before' \<and>
           delete_commas_from k before s = k # delete_commas_from k before' rest"
  using assms(3,4)
proof (induction s arbitrary: before)
  case Nil
  then show ?case by simp
next
  case (Cons c cs)
  show ?case
  proof (cases "is_space c")
    case True
    with Cons.prems have d: "dropWhile is_space cs = k # rest" by simp
    then have n: "next_is k cs" by (auto simp: next_is_dropWhile)
    from True Cons.prems(1) have p: "next_is COMMA (c # before)" by (simp add: next_is_Cons)
    from Cons.IH [OF p d] obtain before' where
      "\<not> next_is COMMA before'" "delete_commas_from k (c # before) cs = k # delete_commas_from k before' rest"
      by blast
    moreover have "delete_commas_from k before (c # cs) = delete_commas_from k (c # before) cs"
      using True Cons.prems(1) n by simp
    ultimately show ?thesis by auto
  next
    case False
    with Cons.prems have c: "c = k" "cs = rest" by simp_all
    have "delete_commas_from k before (c # cs) = k # delete_commas_from k (k # before) rest"
      using c assms(1,2) by simp
    moreover have "\<not> next_is COMMA (k # before)"
      using assms(1,2) by (simp add: next_is_Cons)
    ultimately show ?thesis by blast
  qed
qed

lemma delete_commas_from_eq:
  assumes "k \<noteq> COMMA" and "\<not> is_space k"
    and "\<not> (next_is COMMA before \<and> next_is k s)"
  shows "delete_commas_from k before s = replace_comma_before k s"
  using assms(3)
proof (induction "length s" arbitrary: s before rule: less_induct)
  case less
  show ?case
  proof (cases s)
    case Nil
    then show ?thesis by simp
  next
    case (Cons c cs)
    show ?thesis
    proof (cases "c = COMMA")
      case comma: True
      show ?thesis
      proof (cases "closer_follows k cs")
        case True
        then have n: "next_is k cs" by (simp add: next_is_eq)
        then obtain rest where d: "dropWhile is_space cs = k # rest"
          by (auto simp: next_is_dropWhile)
        have p: "next_is COMMA (COMMA # before)"
          by (simp add: next_is_Cons comma_not_space)
        from delete_pending_whitespace [OF assms(1,2) p d] obtain before' where
          b: "\<not> next_is COMMA before'"
          and e: "delete_commas_from k (COMMA # before) cs = k # delete_commas_from k before' rest"
          by blast
        have "length (dropWhile is_space cs) \<le> length cs" by (rule length_dropWhile_le)
        with d have "length rest < length s" using Cons by simp
        from less.hyps [OF this, of before'] b
        have ih: "delete_commas_from k before' rest = replace_comma_before k rest" by simp
        have "delete_commas_from k before s = delete_commas_from k (COMMA # before) cs"
          using Cons comma n by simp
        moreover have "replace_comma_before k s = k # replace_comma_before k rest"
          using Cons comma True d by simp
        ultimately show ?thesis using e ih by simp
      next
        case False
        then have n: "\<not> next_is k cs" by (simp add: next_is_eq)
        have "length cs < length s" using Cons by simp
        from less.hyps [OF this, of "c # before"] n
        have ih: "delete_commas_from k (c # before) cs = replace_comma_before k cs" by simp
        show ?thesis using Cons comma False n ih by simp
      qed
    next
      case nc: False
      have keep: "\<not> ((c = COMMA \<or> (is_space c \<and> next_is COMMA before)) \<and> next_is k cs)"
        using nc less.prems Cons by (auto simp: next_is_Cons)
      have next': "\<not> (next_is COMMA (c # before) \<and> next_is k cs)"
        using nc less.prems Cons by (auto simp: next_is_Cons)
      have "length cs < length s" using Cons by simp
      from less.hyps [OF this next']
      have ih: "delete_commas_from k (c # before) cs = replace_comma_before k cs" .
      show ?thesis using Cons nc keep ih by simp
    qed
  qed
qed

lemma delete_commas_before_eq:
  "k \<noteq> COMMA \<Longrightarrow> \<not> is_space k \<Longrightarrow> replace_comma_before k s = delete_commas_before k s"
  unfolding delete_commas_before_def
  by (rule delete_commas_from_eq [symmetric]) (simp_all add: next_is_Nil)

lemma closers_plain: "RBRACE \<noteq> COMMA" "\<not> is_space RBRACE" "RBRACKET \<noteq> COMMA" "\<not> is_space RBRACKET"
  by (simp_all add: is_space_def)

lemma cleaned_repairs: "cleaned m = repairs m"
  by (simp add: cleaned_def repairs_def collapse_line_breaks_eq single_to_double_quotes_eq
        delete_commas_before_eq closers_plain)

text \<open>
  What the repairs do to a text without single quotes and without commas before a
  closer: they replace its line breaks and nothing else.
\<close>

lemma space_facts: "is_space SPACE" "is_space CR" "is_space LF" "\<not> is_space COMMA"
  "\<not> is_space SQUOTE" "\<not> is_space DQUOTE"
  by (simp_all add: is_space_def)

lemma collapse_after_indep:
  "p \<noteq> Some CR \<Longrightarrow> q \<noteq> Some CR \<Longrightarrow> collapse_after p s = collapse_after q s"
  by (simp add: collapse_after_eq)

lemma next_is_collapse: "next_is k (collapse_after p s) = next_is k s"
  by (induction s arbitrary: p) (auto simp: next_is_Cons space_facts)

lemma has_comma_before_collapse: "has_comma_before k (collapse_after p s) = has_comma_before k s"
  by (induction s arbitrary: p) (auto simp: next_is_collapse)

lemma set_collapse_after: "set (collapse_after p s) \<subseteq> insert SPACE (set s)"
  by (induction s arbitrary: p) auto

lemma replace_comma_before_id: "\<not> has_comma_before k s \<Longrightarrow> replace_comma_before k s = s"
  by (induction s) (auto simp: next_is_eq)

lemma cleaned_line_breaks_only:
  assumes "SQUOTE \<notin> set P" and "\<not> has_comma_before RBRACE P" and "\<not> has_comma_before RBRACKET P"
  shows "cleaned P = collapse_line_breaks P"
proof -
  have q: "SQUOTE \<notin> set (collapse_line_breaks P)"
    using assms(1) set_collapse_after [of None P] by (auto simp: collapse_line_breaks_def)
  have c: "\<not> has_comma_before RBRACE (collapse_line_breaks P)"
    "\<not> has_comma_before RBRACKET (collapse_line_breaks P)"
    using assms(2,3) by (simp_all add: collapse_line_breaks_def has_comma_before_collapse)
  show ?thesis
    using q c
    by (simp add: cleaned_def collapse_line_breaks_eq replace_quotes_id replace_comma_before_id)
qed

lemma JSON_parse_reads_line_breaks: "reads_line_breaks_as_spaces JSON_parse"
  unfolding reads_line_breaks_as_spaces_def
  using JSON_parse_linebreaks by (simp add: collapse_line_breaks_eq [symmetric])

section \<open>Facts about loose spellings\<close>

text \<open>
  The repairs take a loose spelling back to the text it spells, one liberty after the
  other: the line breaks are replaced on both sides alike, the single quotes become the
  double quotes they stand for, and the commas before each closer go.
\<close>

lemma respelled_Nil_left: "respelled Q K [] t \<Longrightarrow> t = []"
  by (erule respelled.cases) simp_all

lemma respelled_prefix: "respelled Q K e t \<Longrightarrow> respelled Q K (x @ e) (x @ t)"
  by (induction x) (auto intro: respelled.Same)

lemma dropWhile_spaces: "list_all is_space ws \<Longrightarrow> \<not> is_space k \<Longrightarrow> dropWhile is_space (ws @ k # t) = k # t"
  by (induction ws) auto

lemma respelled_CommaI:
  assumes "k \<in> K" and "next_is k ts" and "respelled Q K e (tl (dropWhile is_space ts))"
  shows "respelled Q K (k # e) (COMMA # ts)"
proof -
  from assms(2) obtain r where r: "dropWhile is_space ts = k # r" by (auto simp: next_is_dropWhile)
  have "ts = takeWhile is_space ts @ dropWhile is_space ts" by simp
  with r have ts: "ts = takeWhile is_space ts @ k # r" by simp
  have "list_all is_space (takeWhile is_space ts)"
    by (simp add: list_all_iff) (meson set_takeWhileD)
  from respelled.Comma [OF assms(1) this, of Q e r] assms(3) r ts show ?thesis by simp
qed

lemma collapse_after_spaces:
  assumes "list_all is_space ws" and "k \<noteq> CR" and "k \<noteq> LF"
  shows "\<exists>ws'. list_all is_space ws' \<and>
           collapse_after q (ws @ k # t) = ws' @ k # collapse_after (Some k) t"
  using assms(1)
proof (induction ws arbitrary: q)
  case Nil
  have "list_all is_space [] \<and> collapse_after q ([] @ k # t) = [] @ k # collapse_after (Some k) t"
    using assms(2,3) by simp
  then show ?case by blast
next
  case (Cons w ws)
  then have "list_all is_space ws" and w: "is_space w" by simp_all
  from Cons.IH [OF this(1), of "Some w"] obtain ws' where
    ws': "list_all is_space ws'" "collapse_after (Some w) (ws @ k # t) = ws' @ k # collapse_after (Some k) t"
    by blast
  define x where "x = (if w = LF \<and> q = Some CR then [] else if w = CR \<or> w = LF then [SPACE] else [w])"
  have "list_all is_space (x @ ws')" using ws'(1) w by (simp add: x_def space_facts)
  moreover have "collapse_after q ((w # ws) @ k # t) = (x @ ws') @ k # collapse_after (Some k) t"
    using ws'(2) by (simp add: x_def)
  ultimately show ?case by blast
qed

lemma respelled_collapse:
  assumes "respelled Q K e t" and "CR \<notin> K" and "LF \<notin> K"
  shows "respelled Q K (collapse_after p e) (collapse_after p t)"
  using assms(1)
proof (induction arbitrary: p)
  case Nil
  show ?case by (simp add: respelled.Nil)
next
  case (Same e t c)
  show ?case
    using respelled_prefix [OF Same.IH [of "Some c"]] by simp
next
  case (Quote e t)
  have "collapse_after (Some SQUOTE) t = collapse_after (Some DQUOTE) t"
    by (rule collapse_after_indep) simp_all
  with respelled.Quote [OF Quote.hyps(1) Quote.IH [of "Some DQUOTE"]] show ?case by simp
next
  case (Comma k ws e t)
  from Comma.hyps(1) assms(2,3) have k: "k \<noteq> CR" "k \<noteq> LF" by auto
  from collapse_after_spaces [OF Comma.hyps(2) k, of "Some COMMA" t] obtain ws' where
    ws': "list_all is_space ws'"
      "collapse_after (Some COMMA) (ws @ k # t) = ws' @ k # collapse_after (Some k) t"
    by blast
  from respelled.Comma [OF Comma.hyps(1) ws'(1) Comma.IH [of "Some k"]] ws'(2) k
  show ?case by simp
qed

lemma spaces_no_quote: "list_all is_space ws \<Longrightarrow> replace_quotes ws = ws"
  by (rule replace_quotes_id) (auto simp: list_all_iff space_facts)

lemma respelled_quotes:
  assumes "respelled Q K e t" and "SQUOTE \<notin> set e" and "SQUOTE \<notin> K"
  shows "respelled False K e (replace_quotes t)"
  using assms(1,2)
proof (induction)
  case Nil
  show ?case by (simp add: replace_quotes_def respelled.Nil)
next
  case (Same e t c)
  then have "respelled False K e (replace_quotes t)" and "c \<noteq> SQUOTE" by auto
  then show ?case using respelled.Same [of False K e "replace_quotes t" c]
    by (simp add: replace_quotes_def)
next
  case (Quote e t)
  then have "respelled False K e (replace_quotes t)" by auto
  then show ?case using respelled.Same [of False K e "replace_quotes t" DQUOTE]
    by (simp add: replace_quotes_def)
next
  case (Comma k ws e t)
  then have ih: "respelled False K e (replace_quotes t)" by auto
  from Comma.hyps(1) assms(3) have k: "k \<noteq> SQUOTE" by auto
  have "replace_quotes (COMMA # ws @ k # t) = COMMA # replace_quotes ws @ k # replace_quotes t"
    using k by (simp add: replace_quotes_def)
  with respelled.Comma [OF Comma.hyps(1,2) ih] spaces_no_quote [OF Comma.hyps(2)]
  show ?case by simp
qed

lemma respelled_next_is:
  assumes "respelled Q K e t" and "next_is k t" and "k \<noteq> COMMA" and "k \<noteq> SQUOTE"
  shows "next_is k e"
  using assms(1,2)
proof (induction)
  case Nil
  then show ?case by simp
next
  case (Same e t c)
  then show ?case by (auto simp: next_is_Cons split: if_splits)
next
  case (Quote e t)
  then show ?case using assms(4) by (simp add: next_is_Cons space_facts)
next
  case (Comma k' ws e t)
  then show ?case using assms(3) by (simp add: next_is_Cons space_facts)
qed

lemma replace_comma_before_spaces:
  "list_all is_space ws \<Longrightarrow> replace_comma_before k (ws @ r) = ws @ replace_comma_before k r"
  by (induction ws) (auto simp: space_facts)

lemma respelled_commas:
  assumes "respelled False K e t" and "\<not> has_comma_before k e"
    and "k \<noteq> COMMA" and "k \<noteq> SQUOTE" and "COMMA \<notin> K" and "\<forall>k' \<in> K. \<not> is_space k'"
  shows "respelled False (K - {k}) e (replace_comma_before k t)"
  using assms(1,2)
proof (induction)
  case Nil
  show ?case by (simp add: respelled.Nil)
next
  case (Same e t c)
  from Same.prems have nc: "\<not> (c = COMMA \<and> next_is k e)" and ne: "\<not> has_comma_before k e"
    by simp_all
  have "\<not> (c = COMMA \<and> closer_follows k t)"
    using nc respelled_next_is [OF Same.hyps(1) _ assms(3,4)] by (auto simp: next_is_eq)
  then have "replace_comma_before k (c # t) = c # replace_comma_before k t" by auto
  with respelled.Same [OF Same.IH [OF ne], of c] show ?case by simp
next
  case (Quote e t)
  then show ?case by simp
next
  case (Comma k' ws e t)
  from Comma.prems have ne: "\<not> has_comma_before k e" by simp
  note ih = Comma.IH [OF ne]
  from Comma.hyps(1) assms(5,6) have k': "k' \<noteq> COMMA" "\<not> is_space k'" by auto
  have d: "dropWhile is_space (ws @ k' # t) = k' # t"
    using Comma.hyps(2) k'(2) by (rule dropWhile_spaces)
  show ?case
  proof (cases "k' = k")
    case True
    with d have "replace_comma_before k (COMMA # ws @ k' # t) = k # replace_comma_before k t"
      by (simp add: closer_follows_def)
    with respelled.Same [OF ih, of k] True show ?thesis by simp
  next
    case False
    with d have "replace_comma_before k (COMMA # ws @ k' # t) =
        COMMA # replace_comma_before k (ws @ k' # t)"
      by (simp add: closer_follows_def)
    also have "replace_comma_before k (ws @ k' # t) = ws @ k' # replace_comma_before k t"
      using k'(1) by (simp add: replace_comma_before_spaces [OF Comma.hyps(2)])
    finally have r: "replace_comma_before k (COMMA # ws @ k' # t) =
        COMMA # ws @ k' # replace_comma_before k t" .
    from Comma.hyps(1) False have "k' \<in> K - {k}" by simp
    from respelled.Comma [OF this Comma.hyps(2) ih] r show ?thesis by simp
  qed
qed

lemma respelled_exact: "respelled False {} e t \<Longrightarrow> t = e"
  by (induction rule: respelled.induct) auto

lemma respelled_head:
  assumes "respelled Q K (c # e) t" and "c \<noteq> DQUOTE" and "c \<notin> K"
  shows "\<exists>t'. t = c # t'"
  using assms by (auto elim: respelled.cases)

lemma respelled_last:
  assumes "respelled Q K e t" and "e \<noteq> []" and "last e \<noteq> DQUOTE"
  shows "t \<noteq> [] \<and> last t = last e"
  using assms
proof (induction)
  case Nil
  then show ?case by simp
next
  case (Same e t c)
  show ?case
  proof (cases "e = []")
    case True
    with Same.hyps(1) have "t = []" by (simp add: respelled_Nil_left)
    with True show ?thesis by simp
  next
    case False
    with Same show ?thesis by auto
  qed
next
  case (Quote e t)
  then show ?case by (cases "e = []") auto
next
  case (Comma k ws e t)
  show ?case
  proof (cases "e = []")
    case True
    with Comma.hyps(3) have "t = []" by (simp add: respelled_Nil_left)
    with True show ?thesis by simp
  next
    case False
    with Comma show ?thesis by auto
  qed
qed

lemma closer_facts:
  "CR \<notin> {RBRACE, RBRACKET}" "LF \<notin> {RBRACE, RBRACKET}" "SQUOTE \<notin> {RBRACE, RBRACKET}"
  "COMMA \<notin> {RBRACE, RBRACKET}" "\<forall>k \<in> {RBRACE, RBRACKET}. \<not> is_space k"
  "{RBRACE, RBRACKET} - {RBRACE} = {RBRACKET}" "{RBRACKET} - {RBRACKET} = ({} :: nat set)"
  "COMMA \<notin> {RBRACKET}" "\<forall>k \<in> {RBRACKET}. \<not> is_space k"
  "RBRACE \<noteq> COMMA" "RBRACE \<noteq> SQUOTE" "RBRACKET \<noteq> COMMA" "RBRACKET \<noteq> SQUOTE"
  by (auto simp: is_space_def)

lemma respelled_cleaned:
  assumes "respelled True {RBRACE, RBRACKET} E T"
    and "SQUOTE \<notin> set E" and "\<not> has_comma_before RBRACE E" and "\<not> has_comma_before RBRACKET E"
  shows "cleaned T = collapse_line_breaks E"
proof -
  define E1 where "E1 = collapse_line_breaks E"
  have q: "SQUOTE \<notin> set E1"
    using assms(2) set_collapse_after [of None E] by (auto simp: E1_def collapse_line_breaks_def)
  have c: "\<not> has_comma_before RBRACE E1" "\<not> has_comma_before RBRACKET E1"
    using assms(3,4) by (simp_all add: E1_def collapse_line_breaks_def has_comma_before_collapse)
  have "respelled True {RBRACE, RBRACKET} E1 (replace_linebreaks T)"
    unfolding E1_def collapse_line_breaks_eq collapse_line_breaks_def
    using assms(1) closer_facts(1,2) by (rule respelled_collapse)
  then have "respelled False {RBRACE, RBRACKET} E1 (replace_quotes (replace_linebreaks T))"
    using q closer_facts(3) by (rule respelled_quotes)
  then have "respelled False ({RBRACE, RBRACKET} - {RBRACE}) E1
      (replace_comma_before RBRACE (replace_quotes (replace_linebreaks T)))"
    using c(1) closer_facts(10,11,4,5) by (rule respelled_commas)
  then have "respelled False {RBRACKET} E1
      (replace_comma_before RBRACE (replace_quotes (replace_linebreaks T)))"
    by (simp only: closer_facts(6))
  then have "respelled False ({RBRACKET} - {RBRACKET}) E1 (cleaned T)"
    unfolding cleaned_def
    using c(2) closer_facts(12,13,8,9) by (rule respelled_commas)
  then have "respelled False {} E1 (cleaned T)"
    by (simp only: closer_facts(7))
  then show ?thesis unfolding E1_def by (rule respelled_exact)
qed

lemma respelled_object:
  assumes "respelled Q {RBRACE, RBRACKET} (LBRACE # inner @ [RBRACE]) T"
  shows "match_braces T = Some T"
proof -
  from respelled_head [OF assms] obtain t' where t': "T = LBRACE # t'" by auto
  from respelled_last [OF assms] have l: "T \<noteq> [] \<and> last T = RBRACE" by simp
  with t' have ne: "t' \<noteq> []" by auto
  with l t' have "last t' = RBRACE" by simp
  with ne have "t' = butlast t' @ [RBRACE]" using append_butlast_last_id [of t'] by simp
  with t' have T: "T = [] @ LBRACE # butlast t' @ RBRACE # []" by simp
  have "brace_span ([] @ LBRACE # butlast t' @ RBRACE # []) = Some (LBRACE # butlast t' @ [RBRACE])"
    by (rule brace_span_extract) simp_all
  with T show ?thesis by (simp add: match_braces_span)
qed

lemma loose_text_respelled: "respelled True {RBRACE, RBRACKET} strict_text loose_text"
  unfolding strict_text_def loose_text_def
  apply (simp add: js_def)
  apply (rule respelled.Nil respelled.Same respelled.Quote
        | (rule respelled_CommaI, simp, simp add: next_is_Cons is_space_def)
        | simp add: is_space_def)+
  done

section \<open>Facts about the stored name\<close>

lemma decimal_small: "n < 10 \<Longrightarrow> decimal n = [48 + n]"
  by (subst decimal.simps) simp

lemma decimal_large: "\<not> n < 10 \<Longrightarrow> decimal n = decimal (n div 10) @ [48 + n mod 10]"
  by (subst decimal.simps) simp

lemma decimal_digits: "c \<in> set (decimal n) \<Longrightarrow> is_digit c"
proof (induction n arbitrary: c rule: decimal.induct)
  case (1 n)
  show ?case
  proof (cases "n < 10")
    case True
    with "1.prems" show ?thesis by (simp add: decimal_small is_digit_def)
  next
    case False
    with "1.prems" have "c \<in> set (decimal (n div 10)) \<or> c = 48 + n mod 10"
      by (auto simp: decimal_large)
    then show ?thesis
    proof
      assume "c \<in> set (decimal (n div 10))"
      with False "1.IH" show ?thesis by simp
    next
      assume "c = 48 + n mod 10"
      moreover have "n mod 10 < 10" by simp
      ultimately show ?thesis unfolding is_digit_def by linarith
    qed
  qed
qed

lemma digits_value_snoc: "digits_value (ds @ [d]) = 10 * digits_value ds + (d - 48)"
  by (simp add: digits_value_def)

lemma digits_value_decimal: "digits_value (decimal n) = n"
proof (induction n rule: decimal.induct)
  case (1 n)
  show ?case
  proof (cases "n < 10")
    case True
    then show ?thesis by (simp add: decimal_small digits_value_def)
  next
    case False
    with "1.IH" have ih: "digits_value (decimal (n div 10)) = n div 10" by simp
    have "digits_value (decimal n) = 10 * digits_value (decimal (n div 10)) + (48 + n mod 10 - 48)"
      by (simp only: decimal_large [OF False] digits_value_snoc)
    also have "\<dots> = 10 * (n div 10) + n mod 10" by (simp only: ih add_diff_cancel_left')
    also have "\<dots> = n" by simp
    finally show ?thesis .
  qed
qed

lemma decimal_inj: "decimal m = decimal n \<Longrightarrow> m = n"
  by (metis digits_value_decimal)

lemma takeWhile_decimal:
  assumes "e \<noteq> []" and "hd e = DOT"
  shows "takeWhile is_digit (decimal n @ e) = decimal n"
proof -
  from assms obtain es where e: "e = DOT # es" by (cases e) auto
  have "\<not> is_digit DOT" by (simp add: is_digit_def)
  then show ?thesis
    unfolding e by (simp add: takeWhile_append2 decimal_digits)
qed

lemma path_extname_dot: "path_extname p = [] \<or> hd (path_extname p) = DOT"
  by (simp add: path_extname_def Let_def)

lemma decimal_example: "decimal 1700000000000 = js ''1700000000000''"
  by (simp add: decimal_small decimal_large js_def)



section \<open>Facts about the endpoint\<close>

lemma unlink_simps:
  "files (unlink p w) = files w - {p}"
  "unlink_calls (unlink p w) = unlink_calls w @ [(p, p \<in> files w)]"
  "console (unlink p w) = console w"
  by (simp_all add: unlink_def)






lemma field_names_differ: "js ''abnormal_findings'' \<noteq> js ''categorized_analysis''"
  by (simp add: js_def)

lemma ensure_array_object:
  "ensure_array f (JObj kvs) =
     Inr (JObj (if is_array (map_of kvs f) then kvs else AList.update f (JArr []) kvs))"
  by (simp add: ensure_array_def)

lemma map_of_ensured:
  "map_of (if is_array (map_of kvs f) then kvs else AList.update f (JArr []) kvs) k =
     (if k = f then Some (JArr (array_or_empty (map_of kvs f))) else map_of kvs k)"
  by (auto simp: is_array_def array_or_empty_def update_conv' split: option.splits json.splits)


lemma parse_summary_ok:
  \<open>JSON_parse (js ''{"summary":"ok"}'') = Some (JObj [(js ''summary'', JStr (js ''ok''))])\<close>
  by code_simp

lemma parse_truncated: \<open>JSON_parse (js ''{"patient": {"name": "Jane'') = None\<close>
  by code_simp

lemma match_truncated: \<open>match_braces (js ''{"patient": {"name": "Jane'') = None\<close>
  by code_simp

section \<open>Facts about the renderer\<close>

lemma normalize_step_key:
  "normalize_step lower m e = (case key_of lower e of None \<Rightarrow> m | Some k \<Rightarrow> m(k := summary e))"
  by (simp add: normalize_step_def key_of_def split: option.splits)

lemma normalizedCategories_snoc:
  "normalizedCategories lower (es @ [e]) = normalize_step lower (normalizedCategories lower es) e"
  by (simp add: normalizedCategories_def)

lemma normalizedCategories_Some:
  "normalizedCategories lower es k = Some s \<Longrightarrow>
     \<exists>e \<in> set es. key_of lower e = Some k \<and> summary e = Some s"
proof (induction es rule: rev_induct)
  case Nil
  then show ?case by (simp add: normalizedCategories_def)
next
  case (snoc e es)
  show ?case
  proof (cases "key_of lower e = Some k")
    case True
    with snoc.prems have "summary e = Some s"
      by (simp add: normalizedCategories_snoc normalize_step_key)
    with True show ?thesis by auto
  next
    case False
    with snoc.prems have "normalizedCategories lower es k = Some s"
      by (auto simp: normalizedCategories_snoc normalize_step_key split: option.splits)
    with snoc.IH show ?thesis by auto
  qed
qed

lemma normalizedCategories_last:
  assumes "key_of lower e = Some k" and "\<forall>e' \<in> set es'. key_of lower e' \<noteq> Some k"
  shows "normalizedCategories lower (es @ e # es') k = summary e"
  using assms(2)
proof (induction es' rule: rev_induct)
  case Nil
  with assms(1) show ?case
    by (simp add: normalizedCategories_snoc normalize_step_key)
next
  case (snoc x xs)
  then have ih: "normalizedCategories lower (es @ e # xs) k = summary e" by simp
  from snoc.prems have "key_of lower x \<noteq> Some k" by simp
  then have "normalizedCategories lower ((es @ e # xs) @ [x]) k = normalizedCategories lower (es @ e # xs) k"
    unfolding normalizedCategories_snoc
    by (auto simp: normalize_step_key split: option.splits)
  with ih show ?case by simp
qed

lemma normalizedCategories_skip:
  assumes "key_of lower e = None"
  shows "normalizedCategories lower (es @ e # es') = normalizedCategories lower (es @ es')"
proof -
  have "normalize_step lower m e = m" for m
    using assms by (simp add: normalize_step_key)
  then show ?thesis by (simp add: normalizedCategories_def)
qed

lemma normalizedCategories_filter:
  assumes "\<forall>e. key_of lower e = Some k \<longrightarrow> P e"
  shows "normalizedCategories lower (filter P es) k = normalizedCategories lower es k"
proof (induction es rule: rev_induct)
  case Nil
  then show ?case by simp
next
  case (snoc e es)
  show ?case
  proof (cases "P e")
    case True
    with snoc show ?thesis
      by (simp add: normalizedCategories_snoc normalize_step_key split: option.splits)
  next
    case False
    with assms have "key_of lower e \<noteq> Some k" by auto
    then have "normalizedCategories lower (es @ [e]) k = normalizedCategories lower es k"
      unfolding normalizedCategories_snoc
      by (auto simp: normalize_step_key split: option.splits)
    with False snoc show ?thesis by simp
  qed
qed

lemma render_category_Some:
  "render_category lower m cat = Some (n, s) \<longleftrightarrow> n = cat \<and> m (lower cat) = Some s \<and> s \<noteq> []"
  by (auto simp: render_category_def split: option.splits if_splits)

lemma render_category_fst: "render_category lower m cat = Some p \<Longrightarrow> fst p = cat"
  by (cases p) (simp add: render_category_Some)

lemma map_fst_sections:
  "map fst (List.map_filter (render_category lower m) cats) =
     filter (\<lambda>cat. render_category lower m cat \<noteq> None) cats"
proof (induction cats)
  case Nil
  then show ?case by (simp add: List.map_filter_simps)
next
  case (Cons c cs)
  show ?case
  proof (cases "render_category lower m c")
    case None
    with Cons show ?thesis by (simp add: List.map_filter_simps)
  next
    case (Some p)
    with Cons render_category_fst [OF Some] show ?thesis
      by (simp add: List.map_filter_simps)
  qed
qed

lemma categoryOrder_distinct: "distinct categoryOrder"
  by (simp add: categoryOrder_def js_def)

lemma set_map_filter_iff: "y \<in> set (List.map_filter f xs) \<longleftrightarrow> (\<exists>x \<in> set xs. f x = Some y)"
  by (induction xs) (auto simp: List.map_filter_simps split: option.splits)

lemma sections_member:
  "(cat, s) \<in> set (category_sections lower analysis) \<longleftrightarrow>
     cat \<in> set categoryOrder \<and>
     normalizedCategories lower (case analysis of None \<Rightarrow> [] | Some es \<Rightarrow> es) (lower cat) = Some s \<and> s \<noteq> []"
  by (auto simp: category_sections_def Let_def set_map_filter_iff render_category_Some)

lemma matches_key: "matches lower cat e \<longleftrightarrow> key_of lower e = Some (lower cat)"
  by (auto simp: matches_def key_of_def split: option.splits)

lemma normalizedCategories_matching:
  "normalizedCategories lower es (lower cat) =
     (let ms = filter (matches lower cat) es in if ms = [] then None else summary (last ms))"
proof (induction es rule: rev_induct)
  case Nil
  show ?case by (simp add: normalizedCategories_def)
next
  case (snoc e es)
  show ?case
  proof (cases "matches lower cat e")
    case True
    then show ?thesis
      by (simp add: normalizedCategories_snoc normalize_step_key matches_key)
  next
    case False
    then have "key_of lower e \<noteq> Some (lower cat)" by (simp add: matches_key)
    then have "normalizedCategories lower (es @ [e]) (lower cat) = normalizedCategories lower es (lower cat)"
      unfolding normalizedCategories_snoc
      by (auto simp: normalize_step_key split: option.splits)
    with False snoc show ?thesis by simp
  qed
qed

lemma render_category_shown:
  "render_category lower (normalizedCategories lower es) cat = shown_section lower es cat"
  by (simp add: render_category_def shown_section_def normalizedCategories_matching Let_def)

lemma category_sections_shown:
  "category_sections lower analysis =
     List.map_filter (shown_section lower (case analysis of None \<Rightarrow> [] | Some es \<Rightarrow> es)) categoryOrder"
proof -
  have "render_category lower (normalizedCategories lower es) = shown_section lower es" for es
    by (rule ext) (rule render_category_shown)
  then show ?thesis by (simp add: category_sections_def Let_def)
qed

lemma shown_section_present:
  assumes "e \<in> set es" and "matches lower cat e"
    and "\<forall>e \<in> set es. matches lower cat e \<longrightarrow> (\<exists>s. summary e = Some s \<and> s \<noteq> [])"
  shows "\<exists>s. shown_section lower es cat = Some (cat, s)"
proof -
  define ms where "ms = filter (matches lower cat) es"
  from assms(1,2) have "e \<in> set ms" by (simp add: ms_def)
  then have ne: "ms \<noteq> []" by auto
  then have "last ms \<in> set ms" by simp
  then have "last ms \<in> set es" "matches lower cat (last ms)" by (simp_all add: ms_def)
  with assms(3) obtain s where "summary (last ms) = Some s" "s \<noteq> []" by blast
  with ne show ?thesis by (simp add: shown_section_def ms_def [symmetric])
qed

section \<open>The claims\<close>

text \<open>
  C1. The normalizer settles every raw input by the priority chain of the specification:
  an object or array is returned unchanged; otherwise the text is parsed directly and a
  success is the result, nothing repaired; otherwise the span from the first opening
  brace to the last closing brace is taken, the four repairs are applied in their order
  (line breaks to single spaces, single quotes to double quotes, the commas before a
  closing brace removed, the commas before a closing bracket removed) and the repaired
  text is parsed; when all of this fails the result is \<open>null\<close>, the failure of the
  normalization. (The parser is any function that, like \<open>JSON.parse\<close>, rejects the
  empty text.)
\<close>

theorem normalizer_priority_chain:
  assumes "parse [] = None"
  shows "fst (safeParseJSON parse input) =
           (case normalize_spec parse input of Some v \<Rightarrow> v | None \<Rightarrow> JNull)"
proof (cases input)
  case Absent
  then show ?thesis by (simp add: safeParseJSON_def normalize_spec_def)
next
  case (ObjectValue kvs)
  then show ?thesis by (simp add: safeParseJSON_def normalize_spec_def)
next
  case (ArrayValue xs)
  then show ?thesis by (simp add: safeParseJSON_def normalize_spec_def)
next
  case (Text t)
  show ?thesis
  proof (cases "t = []")
    case True
    with Text assms show ?thesis
      by (simp add: safeParseJSON_Text normalize_spec_def brace_span_Nil)
  next
    case False
    with Text show ?thesis
      by (simp add: safeParseJSON_Text normalize_spec_def match_braces_span cleaned_repairs
               split: option.splits)
  qed
qed

theorem normalizer_priority_chain_witness:
  \<open>JSON_parse [] = None \<and>
   brace_span (js ''Result: '' @ loose_text @ js '' done'') = Some loose_text \<and>
   repairs loose_text = js ''{"a": "b",   "c": [1, 2]}'' \<and>
   normalize_spec JSON_parse (Text (js ''Result: '' @ loose_text @ js '' done'')) =
     Some (JObj [(js ''a'', JStr (js ''b'')), (js ''c'', JArr [JNum 1, JNum 2])]) \<and>
   fst (safeParseJSON JSON_parse (Text (js ''Result: '' @ loose_text @ js '' done''))) =
     JObj [(js ''a'', JStr (js ''b'')), (js ''c'', JArr [JNum 1, JNum 2])]\<close>
proof -
  have h: "JSON_parse [] = None" by (rule JSON_parse_empty)
  have b: \<open>brace_span (js ''Result: '' @ loose_text @ js '' done'') = Some loose_text\<close>
    by code_simp
  have r: \<open>repairs loose_text = js ''{"a": "b",   "c": [1, 2]}''\<close> by code_simp
  have n: \<open>normalize_spec JSON_parse (Text (js ''Result: '' @ loose_text @ js '' done'')) =
     Some (JObj [(js ''a'', JStr (js ''b'')), (js ''c'', JArr [JNum 1, JNum 2])])\<close>
    by code_simp
  from normalizer_priority_chain [of JSON_parse \<open>Text (js ''Result: '' @ loose_text @ js '' done'')\<close>, OF h] h b r n
  show ?thesis by simp
qed

text \<open>
  C2 (as amended). In the server that coerces, whenever the value used as the report is
  an object, the answer is the report with status 200 and no error arises: in it
  \<open>abnormal_findings\<close> and \<open>categorized_analysis\<close> are arrays, the array the parsed
  value held or the empty array when the field was missing or held something else, and
  every other property is as it was parsed.
\<close>

theorem arrays_present_for_objects:
  assumes "parsed_of parse r = (JObj kvs, logged)"
  shows "\<exists>kvs'.
           analyze parse filePath (Responded r) w =
             (\<lparr>status = 200, body = Report (JObj kvs')\<rparr>,
              (unlink filePath w)\<lparr>console := console w @ logged\<rparr>) \<and>
           map_of kvs' (js ''abnormal_findings'') =
             Some (JArr (array_or_empty (map_of kvs (js ''abnormal_findings'')))) \<and>
           map_of kvs' (js ''categorized_analysis'') =
             Some (JArr (array_or_empty (map_of kvs (js ''categorized_analysis'')))) \<and>
           (\<forall>k. k \<noteq> js ''abnormal_findings'' \<longrightarrow> k \<noteq> js ''categorized_analysis'' \<longrightarrow>
                map_of kvs' k = map_of kvs k)"
proof -
  define a where "a = js ''abnormal_findings''"
  define c where "c = js ''categorized_analysis''"
  define k1 where "k1 = (if is_array (map_of kvs a) then kvs else AList.update a (JArr []) kvs)"
  define k2 where "k2 = (if is_array (map_of k1 c) then k1 else AList.update c (JArr []) k1)"
  have ac: "a \<noteq> c" unfolding a_def c_def by (rule field_names_differ)
  have run: "analyze parse filePath (Responded r) w =
      (\<lparr>status = 200, body = Report (JObj k2)\<rparr>, (unlink filePath w)\<lparr>console := console w @ logged\<rparr>)"
    using assms
    by (simp add: analyze_def Let_def ensure_array_object unlink_simps k1_def k2_def a_def c_def)
  have m1: "map_of k1 k = (if k = a then Some (JArr (array_or_empty (map_of kvs a))) else map_of kvs k)" for k
    unfolding k1_def by (rule map_of_ensured)
  have m2: "map_of k2 k = (if k = c then Some (JArr (array_or_empty (map_of k1 c))) else map_of k1 k)" for k
    unfolding k2_def by (rule map_of_ensured)
  have "map_of k2 a = Some (JArr (array_or_empty (map_of kvs a)))"
    using ac by (simp add: m1 m2)
  moreover have "map_of k2 c = Some (JArr (array_or_empty (map_of kvs c)))"
    using ac by (simp add: m1 m2)
  moreover have "\<forall>k. k \<noteq> a \<longrightarrow> k \<noteq> c \<longrightarrow> map_of k2 k = map_of kvs k"
    by (simp add: m1 m2)
  ultimately show ?thesis
    using run unfolding a_def c_def by blast
qed

theorem arrays_present_for_objects_witness:
  \<open>parsed_of JSON_parse \<lparr>output_parsed = None, output_text = Text (js ''{"summary":"ok"}'')\<rparr> =
     (JObj [(js ''summary'', JStr (js ''ok''))], []) \<and>
   (\<exists>kvs'. analyze JSON_parse (js ''uploads/1.pdf'')
              (Responded \<lparr>output_parsed = None, output_text = Text (js ''{"summary":"ok"}'')\<rparr>)
              \<lparr>files = {js ''uploads/1.pdf''}, unlink_calls = [], console = []\<rparr> =
            (\<lparr>status = 200, body = Report (JObj kvs')\<rparr>,
             \<lparr>files = {}, unlink_calls = [(js ''uploads/1.pdf'', True)], console = []\<rparr>) \<and>
          map_of kvs' (js ''abnormal_findings'') = Some (JArr []) \<and>
          map_of kvs' (js ''categorized_analysis'') = Some (JArr []) \<and>
          map_of kvs' (js ''summary'') = Some (JStr (js ''ok'')))\<close>
proof -
  have ne: \<open>js ''{"summary":"ok"}'' \<noteq> []\<close> by (simp add: js_def)
  have p: \<open>parsed_of JSON_parse \<lparr>output_parsed = None, output_text = Text (js ''{"summary":"ok"}'')\<rparr> =
     (JObj [(js ''summary'', JStr (js ''ok''))], [])\<close>
    by (simp add: parsed_of_def safeParseJSON_def parse_summary_ok ne)
  have s: "js ''summary'' \<noteq> js ''abnormal_findings''" "js ''summary'' \<noteq> js ''categorized_analysis''"
    by (simp_all add: js_def)
  from arrays_present_for_objects [OF p, of \<open>js ''uploads/1.pdf''\<close>
      \<open>\<lparr>files = {js ''uploads/1.pdf''}, unlink_calls = [], console = []\<rparr>\<close>]
  obtain kvs' where
    \<open>analyze JSON_parse (js ''uploads/1.pdf'')
              (Responded \<lparr>output_parsed = None, output_text = Text (js ''{"summary":"ok"}'')\<rparr>)
              \<lparr>files = {js ''uploads/1.pdf''}, unlink_calls = [], console = []\<rparr> =
            (\<lparr>status = 200, body = Report (JObj kvs')\<rparr>,
             (unlink (js ''uploads/1.pdf'') \<lparr>files = {js ''uploads/1.pdf''}, unlink_calls = [], console = []\<rparr>)
               \<lparr>console := console \<lparr>files = {js ''uploads/1.pdf''}, unlink_calls = [], console = []\<rparr> @ []\<rparr>)\<close>
    and "map_of kvs' (js ''abnormal_findings'') =
           Some (JArr (array_or_empty (map_of [(js ''summary'', JStr (js ''ok''))] (js ''abnormal_findings''))))"
    and "map_of kvs' (js ''categorized_analysis'') =
           Some (JArr (array_or_empty (map_of [(js ''summary'', JStr (js ''ok''))] (js ''categorized_analysis''))))"
    and "\<forall>k. k \<noteq> js ''abnormal_findings'' \<longrightarrow> k \<noteq> js ''categorized_analysis'' \<longrightarrow>
                map_of kvs' k = map_of [(js ''summary'', JStr (js ''ok''))] k"
    by blast
  with s p show ?thesis
    by (auto simp: unlink_def array_or_empty_def)
qed

text \<open>
  The claim as stated fails: the server without structured output sends the parsed value
  as it is, and a reply without the two fields gives a report without them.
\<close>

theorem arrays_present_counterexample:
  \<open>fst (analyze_plain JSON_parse (js ''uploads/1.pdf'') (PlainResponded (Some (js ''{"summary":"ok"}'')))
         \<lparr>files = {js ''uploads/1.pdf''}, unlink_calls = [], console = []\<rparr>) =
     \<lparr>status = 200, body = Report (JObj [(js ''summary'', JStr (js ''ok''))])\<rparr> \<and>
   map_of [(js ''summary'', JStr (js ''ok''))] (js ''abnormal_findings'') = None \<and>
   map_of [(js ''summary'', JStr (js ''ok''))] (js ''categorized_analysis'') = None\<close>
proof -
  have ne: \<open>js ''{"summary":"ok"}'' \<noteq> []\<close> by (simp add: js_def)
  have s: "js ''summary'' \<noteq> js ''abnormal_findings''" "js ''summary'' \<noteq> js ''categorized_analysis''"
    by (simp_all add: js_def)
  show ?thesis
    using s by (simp add: analyze_plain_def safeParseJSON_plain_def parse_summary_ok ne Let_def)
qed

text \<open>
  C3 (as amended). A JSON object text \<open>P\<close> sits between prose with no opening brace
  before it and no closing brace behind it. Then the span extracted is \<open>P\<close> itself, and
  the normalizer returns the parse of the whole text when that succeeds, otherwise the
  parse of the repaired \<open>P\<close>, otherwise \<open>null\<close>. It recovers the parse of \<open>P\<close> when
  the whole text does not parse and \<open>P\<close> has no single quote and no comma before a
  closing brace or bracket (in a valid \<open>P\<close> these can stand only inside a string).
  Line breaks in \<open>P\<close> do no harm. (The parser is any function that, like
  \<open>JSON.parse\<close>, reads line breaks as spaces.)
\<close>

theorem prose_wrapped_object:
  assumes "LBRACE \<notin> set prose" and "RBRACE \<notin> set prose2"
    and "P = LBRACE # inner @ [RBRACE]"
    and "reads_line_breaks_as_spaces parse"
  shows "fst (safeParseJSON parse (Text (prose @ P @ prose2))) =
           (case parse (prose @ P @ prose2) of
              Some w \<Rightarrow> w
            | None \<Rightarrow> (case parse (cleaned P) of Some u \<Rightarrow> u | None \<Rightarrow> JNull)) \<and>
         (parse (prose @ P @ prose2) = None \<longrightarrow> SQUOTE \<notin> set P \<longrightarrow>
          \<not> has_comma_before RBRACE P \<longrightarrow> \<not> has_comma_before RBRACKET P \<longrightarrow> parse P = Some v \<longrightarrow>
            fst (safeParseJSON parse (Text (prose @ P @ prose2))) = v)"
proof -
  define t where "t = prose @ P @ prose2"
  have m: "match_braces t = Some P"
    using brace_span_extract [OF assms(1) assms(2), of inner] assms(3)
    by (simp add: match_braces_span t_def)
  have ne: "t \<noteq> []" using assms(3) by (simp add: t_def)
  have first: "fst (safeParseJSON parse (Text t)) =
           (case parse t of
              Some w \<Rightarrow> w
            | None \<Rightarrow> (case parse (cleaned P) of Some u \<Rightarrow> u | None \<Rightarrow> JNull))"
    using m ne by (simp add: safeParseJSON_Text split: option.splits)
  have second: "fst (safeParseJSON parse (Text t)) = v"
    if "parse t = None" and "SQUOTE \<notin> set P" and "\<not> has_comma_before RBRACE P"
      and "\<not> has_comma_before RBRACKET P" and "parse P = Some v"
  proof -
    from that(2,3,4) have "cleaned P = collapse_line_breaks P" by (rule cleaned_line_breaks_only)
    moreover from assms(4) that(5) have "parse (collapse_line_breaks P) = Some v"
      by (simp add: reads_line_breaks_as_spaces_def)
    ultimately show ?thesis using first that(1) by simp
  qed
  from first second show ?thesis
    unfolding t_def by blast
qed

theorem prose_wrapped_object_witness:
  \<open>LBRACE \<notin> set fenced_prose \<and> RBRACE \<notin> set fenced_prose2 \<and>
   reads_line_breaks_as_spaces JSON_parse \<and>
   JSON_parse (fenced_prose @ fenced_object @ fenced_prose2) = None \<and>
   LF \<in> set fenced_object \<and> SQUOTE \<notin> set fenced_object \<and>
   \<not> has_comma_before RBRACE fenced_object \<and> \<not> has_comma_before RBRACKET fenced_object \<and>
   JSON_parse fenced_object =
     Some (JObj [(js ''a'', JArr [JNum 1, JNum 2]), (js ''b'', JStr (js ''x''))]) \<and>
   fst (safeParseJSON JSON_parse (Text (fenced_prose @ fenced_object @ fenced_prose2))) =
     JObj [(js ''a'', JArr [JNum 1, JNum 2]), (js ''b'', JStr (js ''x''))]\<close>
proof -
  have a: \<open>LBRACE \<notin> set fenced_prose\<close> by code_simp
  have b: \<open>RBRACE \<notin> set fenced_prose2\<close> by code_simp
  have c: \<open>fenced_object =
      LBRACE # ([LF] @ js ''  "a": [1, 2],'' @ [CR, LF] @ js ''  "b": "x"'' @ [LF]) @ [RBRACE]\<close>
    by code_simp
  have d: \<open>JSON_parse (fenced_prose @ fenced_object @ fenced_prose2) = None\<close> by code_simp
  have e: \<open>LF \<in> set fenced_object\<close> \<open>SQUOTE \<notin> set fenced_object\<close>
    \<open>\<not> has_comma_before RBRACE fenced_object\<close> \<open>\<not> has_comma_before RBRACKET fenced_object\<close>
    by code_simp+
  have f: \<open>JSON_parse fenced_object =
     Some (JObj [(js ''a'', JArr [JNum 1, JNum 2]), (js ''b'', JStr (js ''x''))])\<close> by code_simp
  from prose_wrapped_object [OF a b c JSON_parse_reads_line_breaks,
      of \<open>JObj [(js ''a'', JArr [JNum 1, JNum 2]), (js ''b'', JStr (js ''x''))]\<close>] d e f
  have \<open>fst (safeParseJSON JSON_parse (Text (fenced_prose @ fenced_object @ fenced_prose2))) =
     JObj [(js ''a'', JArr [JNum 1, JNum 2]), (js ''b'', JStr (js ''x''))]\<close> by blast
  with a b d e f JSON_parse_reads_line_breaks show ?thesis by blast
qed

text \<open>
  The claim as stated fails: an apostrophe inside a string of \<open>P\<close> is rewritten into a
  double quote, and the repaired text no longer parses.
\<close>

theorem prose_wrapped_object_counterexample:
  \<open>LBRACE \<notin> set (js ''Here is the result: '') \<and> RBRACE \<notin> set (js ''Here is the result: '') \<and>
   JSON_parse (js ''{"note":"it's low"}'') = Some (JObj [(js ''note'', JStr (js ''it's low''))]) \<and>
   fst (safeParseJSON JSON_parse (Text (js ''Here is the result: '' @ js ''{"note":"it's low"}'' @ []))) = JNull\<close>
  by code_simp

text \<open>
  The other two conditions are needed as well. A comma before a closer inside a string
  of \<open>P\<close> is removed, and the object recovered is another one; and prose that makes
  the whole text valid JSON, here a pair of brackets, gives the parse of the whole text.
\<close>

lemma prose_wrapped_comma_in_string:
  \<open>LBRACE \<notin> set (js ''Result: '') \<and> RBRACE \<notin> set (js '' done'') \<and>
   SQUOTE \<notin> set (js ''{"a":"x, }"}'') \<and> has_comma_before RBRACE (js ''{"a":"x, }"}'') \<and>
   JSON_parse (js ''Result: '' @ js ''{"a":"x, }"}'' @ js '' done'') = None \<and>
   JSON_parse (js ''{"a":"x, }"}'') = Some (JObj [(js ''a'', JStr (js ''x, }''))]) \<and>
   fst (safeParseJSON JSON_parse (Text (js ''Result: '' @ js ''{"a":"x, }"}'' @ js '' done''))) =
     JObj [(js ''a'', JStr (js ''x}''))]\<close>
  by code_simp

lemma prose_wrapped_in_brackets:
  \<open>LBRACE \<notin> set (js ''['') \<and> RBRACE \<notin> set (js '']'') \<and>
   SQUOTE \<notin> set (js ''{"a":1}'') \<and> \<not> has_comma_before RBRACE (js ''{"a":1}'') \<and>
   \<not> has_comma_before RBRACKET (js ''{"a":1}'') \<and>
   JSON_parse (js ''{"a":1}'') = Some (JObj [(js ''a'', JNum 1)]) \<and>
   fst (safeParseJSON JSON_parse (Text (js ''['' @ js ''{"a":1}'' @ js '']''))) =
     JArr [JObj [(js ''a'', JNum 1)]]\<close>
  by code_simp

text \<open>
  C4 (as amended). Let \<open>E\<close> be a JSON object text that parses and has no single quote
  and no comma before a closing brace or bracket (in a valid text these can stand only
  inside a string), and let \<open>T\<close> be a loose spelling of it: single quotes for some of
  its double quotes, and a comma, with or without white space behind it, before some of
  its closing braces and brackets (\<open>E\<close> has the closer in the place of the comma: the
  white space behind a trailing comma goes with the comma, as in the repair of the
  specification). Then the normalization of \<open>T\<close> succeeds, nothing logged: it yields
  the value of \<open>E\<close>, which is what the normalization of \<open>E\<close> yields, unless \<open>T\<close>
  parses as it is, and then the value of that parse. (The parser is any function that,
  like \<open>JSON.parse\<close>, reads line breaks as spaces.)
\<close>

theorem repaired_text_equivalent:
  assumes "reads_line_breaks_as_spaces parse"
    and "parse E = Some v" and "E = LBRACE # inner @ [RBRACE]"
    and "SQUOTE \<notin> set E" and "\<not> has_comma_before RBRACE E" and "\<not> has_comma_before RBRACKET E"
    and "respelled True {RBRACE, RBRACKET} E T"
  shows "safeParseJSON parse (Text T) = (case parse T of Some w \<Rightarrow> (w, []) | None \<Rightarrow> (v, [])) \<and>
         safeParseJSON parse (Text E) = (v, [])"
proof -
  have e: "safeParseJSON parse (Text E) = (v, [])"
    using assms(2,3) by (simp add: safeParseJSON_def)
  have m: "match_braces T = Some T"
    using assms(7) unfolding assms(3) by (rule respelled_object)
  then have ne: "T \<noteq> []" using match_braces_nonempty by blast
  have "cleaned T = collapse_line_breaks E"
    using assms(7,4,5,6) by (rule respelled_cleaned)
  moreover from assms(1,2) have "parse (collapse_line_breaks E) = Some v"
    by (simp add: reads_line_breaks_as_spaces_def)
  ultimately have "parse (cleaned T) = Some v" by simp
  with m ne have "safeParseJSON parse (Text T) = (case parse T of Some w \<Rightarrow> (w, []) | None \<Rightarrow> (v, []))"
    by (simp add: safeParseJSON_def split: option.splits)
  with e show ?thesis by blast
qed

theorem repaired_text_equivalent_witness:
  \<open>reads_line_breaks_as_spaces JSON_parse \<and>
   JSON_parse strict_text =
     Some (JObj [(js ''a'', JStr (js ''b'')), (js ''c'', JArr [JNum 1, JNum 2])]) \<and>
   SQUOTE \<notin> set strict_text \<and>
   \<not> has_comma_before RBRACE strict_text \<and> \<not> has_comma_before RBRACKET strict_text \<and>
   respelled True {RBRACE, RBRACKET} strict_text loose_text \<and>
   JSON_parse loose_text = None \<and>
   safeParseJSON JSON_parse (Text loose_text) =
     (JObj [(js ''a'', JStr (js ''b'')), (js ''c'', JArr [JNum 1, JNum 2])], []) \<and>
   safeParseJSON JSON_parse (Text strict_text) =
     (JObj [(js ''a'', JStr (js ''b'')), (js ''c'', JArr [JNum 1, JNum 2])], [])\<close>
proof -
  have a: \<open>JSON_parse strict_text =
     Some (JObj [(js ''a'', JStr (js ''b'')), (js ''c'', JArr [JNum 1, JNum 2])])\<close> by code_simp
  have b: \<open>strict_text = LBRACE # (js ''"a": "b",'' @ [LF] @ js ''  "c": [1, 2]'') @ [RBRACE]\<close>
    by code_simp
  have c: \<open>SQUOTE \<notin> set strict_text\<close> \<open>\<not> has_comma_before RBRACE strict_text\<close>
    \<open>\<not> has_comma_before RBRACKET strict_text\<close> by code_simp+
  have d: \<open>JSON_parse loose_text = None\<close> by code_simp
  from repaired_text_equivalent [OF JSON_parse_reads_line_breaks a b c loose_text_respelled] d
  have \<open>safeParseJSON JSON_parse (Text loose_text) =
     (JObj [(js ''a'', JStr (js ''b'')), (js ''c'', JArr [JNum 1, JNum 2])], []) \<and>
   safeParseJSON JSON_parse (Text strict_text) =
     (JObj [(js ''a'', JStr (js ''b'')), (js ''c'', JArr [JNum 1, JNum 2])], [])\<close> by simp
  with JSON_parse_reads_line_breaks a c d loose_text_respelled show ?thesis by blast
qed

text \<open>
  The claim as stated fails: with a trailing comma the repairs run, and they also
  rewrite the apostrophe inside the string, so the input with the trailing comma fails
  where its comma-correct equivalent succeeds.
\<close>

theorem repaired_text_equivalent_counterexample:
  \<open>fst (safeParseJSON JSON_parse (Text (js ''{"note":"it's low",}''))) = JNull \<and>
   fst (safeParseJSON JSON_parse (Text (js ''{"note":"it's low"}''))) =
     JObj [(js ''note'', JStr (js ''it's low''))]\<close>
  by code_simp

text \<open>
  The other two conditions are needed as well. A comma before a closer inside a string
  of \<open>E\<close> is removed once the repairs run, and the value is another one; and a loose
  spelling whose quotes pair up otherwise can be valid JSON as it is, with another value.
\<close>

lemma loose_spelling_comma_in_string:
  \<open>respelled True {RBRACE, RBRACKET} (js ''{"a":"x, }"}'') (js ''{"a":"x, }",}'') \<and>
   has_comma_before RBRACE (js ''{"a":"x, }"}'') \<and>
   fst (safeParseJSON JSON_parse (Text (js ''{"a":"x, }"}''))) = JObj [(js ''a'', JStr (js ''x, }''))] \<and>
   fst (safeParseJSON JSON_parse (Text (js ''{"a":"x, }",}''))) = JObj [(js ''a'', JStr (js ''x}''))]\<close>
proof -
  have \<open>respelled True {RBRACE, RBRACKET} (js ''{"a":"x, }"}'') (js ''{"a":"x, }",}'')\<close>
    apply (simp add: js_def)
    apply (rule respelled.Nil respelled.Same respelled.Quote
        | (rule respelled_CommaI, simp, simp add: next_is_Cons is_space_def)
        | simp add: is_space_def)+
    done
  moreover have \<open>has_comma_before RBRACE (js ''{"a":"x, }"}'') \<and>
   fst (safeParseJSON JSON_parse (Text (js ''{"a":"x, }"}''))) = JObj [(js ''a'', JStr (js ''x, }''))] \<and>
   fst (safeParseJSON JSON_parse (Text (js ''{"a":"x, }",}''))) = JObj [(js ''a'', JStr (js ''x}''))]\<close>
    by code_simp
  ultimately show ?thesis by blast
qed

lemma loose_spelling_valid_as_it_is:
  \<open>respelled True {RBRACE, RBRACKET} (js ''{"a":"b","c":"d"}'') (js ''{"a':'b','c":"d"}'') \<and>
   fst (safeParseJSON JSON_parse (Text (js ''{"a":"b","c":"d"}''))) =
     JObj [(js ''a'', JStr (js ''b'')), (js ''c'', JStr (js ''d''))] \<and>
   fst (safeParseJSON JSON_parse (Text (js ''{"a':'b','c":"d"}''))) =
     JObj [(js ''a':'b','c'', JStr (js ''d''))]\<close>
proof -
  have \<open>respelled True {RBRACE, RBRACKET} (js ''{"a":"b","c":"d"}'') (js ''{"a':'b','c":"d"}'')\<close>
    apply (simp add: js_def)
    apply (rule respelled.Nil respelled.Same respelled.Quote
        | (rule respelled_CommaI, simp, simp add: next_is_Cons is_space_def)
        | simp add: is_space_def)+
    done
  moreover have \<open>fst (safeParseJSON JSON_parse (Text (js ''{"a":"b","c":"d"}''))) =
     JObj [(js ''a'', JStr (js ''b'')), (js ''c'', JStr (js ''d''))] \<and>
   fst (safeParseJSON JSON_parse (Text (js ''{"a':'b','c":"d"}''))) =
     JObj [(js ''a':'b','c'', JStr (js ''d''))]\<close>
    by code_simp
  ultimately show ?thesis by blast
qed

text \<open>
  C5. When the reply has no structured output and every attempt on its text fails (the
  text is absent or empty, or its direct parse fails and there is no brace span or the
  repaired span does not parse), the normalizer returns \<open>null\<close> and logs at most the
  line of the failed repair; the handler answers with status 500 and the message
  "AI returned invalid JSON", through the \<open>try\<close> block and not through the \<open>catch\<close>
  block, and beyond the release of the file only the console has changed.
\<close>

theorem invalid_model_output:
  assumes "input = Absent \<or>
           (\<exists>t. input = Text t \<and> (t = [] \<or> parse t = None) \<and>
                (\<forall>m. match_braces t = Some m \<longrightarrow> parse (cleaned m) = None))"
    and "\<forall>v. output_parsed r = Some v \<longrightarrow> \<not> truthy v"
    and "output_text r = input"
  shows "fst (safeParseJSON parse input) = JNull \<and>
         set (snd (safeParseJSON parse input)) \<subseteq> {StillInvalidJSON} \<and>
         analyze parse filePath (Responded r) w =
           (\<lparr>status = 500, body = Error (Message (js ''AI returned invalid JSON''))\<rparr>,
            (unlink filePath w)\<lparr>console := console w @ snd (safeParseJSON parse input)\<rparr>)"
proof -
  have n: "fst (safeParseJSON parse input) = JNull \<and> set (snd (safeParseJSON parse input)) \<subseteq> {StillInvalidJSON}"
    using assms(1) by (auto simp: safeParseJSON_def split: option.splits if_splits)
  have p: "parsed_of parse r = safeParseJSON parse input"
    using assms(2,3) by (auto simp: parsed_of_def split: option.splits)
  obtain v logged where vl: "safeParseJSON parse input = (v, logged)"
    by (cases "safeParseJSON parse input")
  with n have "v = JNull" by simp
  with p vl have "analyze parse filePath (Responded r) w =
           (\<lparr>status = 500, body = Error (Message (js ''AI returned invalid JSON''))\<rparr>,
            (unlink filePath w)\<lparr>console := console w @ logged\<rparr>)"
    by (simp add: analyze_def Let_def unlink_simps)
  with n vl show ?thesis by simp
qed

theorem invalid_model_output_witness:
  \<open>JSON_parse (js ''{"patient": {"name": "Jane'') = None \<and>
   match_braces (js ''{"patient": {"name": "Jane'') = None \<and>
   analyze JSON_parse (js ''uploads/1.pdf'')
     (Responded \<lparr>output_parsed = None, output_text = Text (js ''{"patient": {"name": "Jane'')\<rparr>)
     \<lparr>files = {js ''uploads/1.pdf''}, unlink_calls = [], console = []\<rparr> =
   (\<lparr>status = 500, body = Error (Message (js ''AI returned invalid JSON''))\<rparr>,
    \<lparr>files = {}, unlink_calls = [(js ''uploads/1.pdf'', True)], console = []\<rparr>)\<close>
proof -
  have ne: \<open>js ''{"patient": {"name": "Jane'' \<noteq> []\<close> by (simp add: js_def)
  have s: \<open>safeParseJSON JSON_parse (Text (js ''{"patient": {"name": "Jane'')) = (JNull, [])\<close>
    by (simp add: safeParseJSON_def ne parse_truncated match_truncated)
  from invalid_model_output [where parse = JSON_parse and input = \<open>Text (js ''{"patient": {"name": "Jane'')\<close>
      and r = \<open>\<lparr>output_parsed = None, output_text = Text (js ''{"patient": {"name": "Jane'')\<rparr>\<close>
      and filePath = \<open>js ''uploads/1.pdf''\<close>
      and w = \<open>\<lparr>files = {js ''uploads/1.pdf''}, unlink_calls = [], console = []\<rparr>\<close>]
  show ?thesis
    using parse_truncated match_truncated s by (simp add: unlink_def)
qed




text \<open>
  C7. Whatever the order of the entries, the sections rendered are those of the
  taxonomy categories, in the order of the taxonomy, that an entry matches: for each
  category the summary of the last entry whose category, trimmed and lower-cased, equals
  the lower-cased category name, and nothing for a category that no entry matches (or
  whose last such entry has no summary or an empty one). So a taxonomy category that
  some entry matches, every such entry with a summary, is rendered. The headings are a
  subsequence of the taxonomy, each at most once; a section is rendered only for a
  taxonomy category for which a matching entry exists, and it shows a summary of such
  an entry. Entries whose category is not in the taxonomy change nothing. (\<open>lower\<close> is
  any function, so also \<open>toLowerCase\<close>.)
\<close>

theorem categories_in_taxonomy_order:
  "category_sections lower analysis =
     List.map_filter (shown_section lower (case analysis of None \<Rightarrow> [] | Some es \<Rightarrow> es)) categoryOrder \<and>
   (\<forall>es cat. cat \<in> set categoryOrder \<longrightarrow> (\<exists>e \<in> set es. matches lower cat e) \<longrightarrow>
      (\<forall>e \<in> set es. matches lower cat e \<longrightarrow> (\<exists>s. summary e = Some s \<and> s \<noteq> [])) \<longrightarrow>
      cat \<in> set (map fst (category_sections lower (Some es)))) \<and>
   subseq (map fst (category_sections lower analysis)) categoryOrder \<and>
   distinct (map fst (category_sections lower analysis)) \<and>
   (\<forall>cat s. (cat, s) \<in> set (category_sections lower analysis) \<longrightarrow>
      cat \<in> set categoryOrder \<and> s \<noteq> [] \<and>
      (\<exists>es e c. analysis = Some es \<and> e \<in> set es \<and> category e = Some c \<and> c \<noteq> [] \<and>
         lower (trim c) = lower cat \<and> summary e = Some s)) \<and>
   (\<forall>es. category_sections lower (Some (filter (in_taxonomy lower) es)) =
      category_sections lower (Some es))"
proof -
  define m where "m = normalizedCategories lower (case analysis of None \<Rightarrow> [] | Some es \<Rightarrow> es)"
  have exact: "category_sections lower analysis =
     List.map_filter (shown_section lower (case analysis of None \<Rightarrow> [] | Some es \<Rightarrow> es)) categoryOrder"
    by (rule category_sections_shown)
  have present: "cat \<in> set (map fst (category_sections lower (Some es)))"
    if "cat \<in> set categoryOrder" and "\<exists>e \<in> set es. matches lower cat e"
      and "\<forall>e \<in> set es. matches lower cat e \<longrightarrow> (\<exists>s. summary e = Some s \<and> s \<noteq> [])"
    for es cat
  proof -
    from that(2) obtain e where "e \<in> set es" "matches lower cat e" by blast
    from shown_section_present [OF this that(3)] obtain s where
      "shown_section lower es cat = Some (cat, s)" by blast
    with that(1) have "(cat, s) \<in> set (category_sections lower (Some es))"
      unfolding category_sections_shown by (auto simp: set_map_filter_iff)
    then show ?thesis by force
  qed
  have names: "map fst (category_sections lower analysis) =
      filter (\<lambda>cat. render_category lower m cat \<noteq> None) categoryOrder"
    by (simp add: category_sections_def Let_def m_def map_fst_sections)
  have order: "subseq (map fst (category_sections lower analysis)) categoryOrder"
    unfolding names by (rule subseq_filter_left)
  have dist: "distinct (map fst (category_sections lower analysis))"
    unfolding names using categoryOrder_distinct by (rule distinct_filter)
  have only: "cat \<in> set categoryOrder \<and> s \<noteq> [] \<and>
      (\<exists>es e c. analysis = Some es \<and> e \<in> set es \<and> category e = Some c \<and> c \<noteq> [] \<and>
         lower (trim c) = lower cat \<and> summary e = Some s)"
    if "(cat, s) \<in> set (category_sections lower analysis)" for cat s
  proof -
    from that have c: "cat \<in> set categoryOrder" and s: "s \<noteq> []"
      and n: "normalizedCategories lower (case analysis of None \<Rightarrow> [] | Some es \<Rightarrow> es) (lower cat) = Some s"
      by (simp_all add: sections_member)
    from normalizedCategories_Some [OF n]
    obtain e where e: "e \<in> set (case analysis of None \<Rightarrow> [] | Some es \<Rightarrow> es)"
      and k: "key_of lower e = Some (lower cat)" and sm: "summary e = Some s" by blast
    from e obtain es where a: "analysis = Some es" and e': "e \<in> set es"
      by (cases analysis) auto
    from k obtain c where "category e = Some c" "c \<noteq> []" "lower (trim c) = lower cat"
      by (auto simp: key_of_def split: option.splits if_splits)
    with c s a e' sm show ?thesis by blast
  qed
  have drop: "category_sections lower (Some (filter (in_taxonomy lower) es)) =
      category_sections lower (Some es)" for es
  proof -
    have "render_category lower (normalizedCategories lower (filter (in_taxonomy lower) es)) cat =
        render_category lower (normalizedCategories lower es) cat"
      if "cat \<in> set categoryOrder" for cat
    proof -
      have "\<forall>e. key_of lower e = Some (lower cat) \<longrightarrow> in_taxonomy lower e"
        using that by (simp add: in_taxonomy_def)
      then have "normalizedCategories lower (filter (in_taxonomy lower) es) (lower cat) =
          normalizedCategories lower es (lower cat)"
        by (rule normalizedCategories_filter)
      then show ?thesis by (simp add: render_category_def)
    qed
    then show ?thesis
      by (simp add: category_sections_def Let_def List.map_filter_def cong: filter_cong map_cong)
  qed
  from exact present order dist only drop show ?thesis by blast
qed

theorem categories_in_taxonomy_order_witness:
  "category_sections ascii_lower (Some sample_analysis) =
     [(js ''Haematology'', js ''normal''), (js ''Liver Function'', js ''raised ALT'')] \<and>
   List.map_filter (shown_section ascii_lower sample_analysis) categoryOrder =
     [(js ''Haematology'', js ''normal''), (js ''Liver Function'', js ''raised ALT'')] \<and>
   js ''Liver Function'' \<in> set categoryOrder \<and>
   filter (matches ascii_lower (js ''Liver Function'')) sample_analysis =
     [\<lparr>category = Some (js '' liver function ''), summary = Some (js ''raised ALT'')\<rparr>] \<and>
   js ''Liver Function'' \<in> set (map fst (category_sections ascii_lower (Some sample_analysis))) \<and>
   (\<exists>e c. e \<in> set sample_analysis \<and> category e = Some c \<and> c \<noteq> [] \<and>
      ascii_lower (trim c) = ascii_lower (js ''Liver Function'') \<and> summary e = Some (js ''raised ALT'')) \<and>
   category_sections ascii_lower (Some (filter (in_taxonomy ascii_lower) sample_analysis)) =
     [(js ''Haematology'', js ''normal''), (js ''Liver Function'', js ''raised ALT'')]"
proof -
  have ev: "category_sections ascii_lower (Some sample_analysis) =
     [(js ''Haematology'', js ''normal''), (js ''Liver Function'', js ''raised ALT'')]"
    by code_simp
  then have mem: "(js ''Liver Function'', js ''raised ALT'') \<in> set (category_sections ascii_lower (Some sample_analysis))"
    by simp
  have c: "js ''Liver Function'' \<in> set categoryOrder" by code_simp
  have f: "filter (matches ascii_lower (js ''Liver Function'')) sample_analysis =
     [\<lparr>category = Some (js '' liver function ''), summary = Some (js ''raised ALT'')\<rparr>]"
    by code_simp
  have e: "\<exists>e \<in> set sample_analysis. matches ascii_lower (js ''Liver Function'') e" by code_simp
  have a: "\<forall>e \<in> set sample_analysis. matches ascii_lower (js ''Liver Function'') e \<longrightarrow>
      (\<exists>s. summary e = Some s \<and> s \<noteq> [])"
    by (simp add: sample_analysis_def js_def)
  note inst = categories_in_taxonomy_order [of ascii_lower "Some sample_analysis"]
  from inst ev have sh: "List.map_filter (shown_section ascii_lower sample_analysis) categoryOrder =
     [(js ''Haematology'', js ''normal''), (js ''Liver Function'', js ''raised ALT'')]"
    by simp
  from inst c e a have p: "js ''Liver Function'' \<in> set (map fst (category_sections ascii_lower (Some sample_analysis)))"
    by blast
  from inst mem have "\<exists>es e c. Some sample_analysis = Some es \<and> e \<in> set es \<and> category e = Some c \<and> c \<noteq> [] \<and>
         ascii_lower (trim c) = ascii_lower (js ''Liver Function'') \<and> summary e = Some (js ''raised ALT'')"
    by blast
  then have ex: "\<exists>e c. e \<in> set sample_analysis \<and> category e = Some c \<and> c \<noteq> [] \<and>
      ascii_lower (trim c) = ascii_lower (js ''Liver Function'') \<and> summary e = Some (js ''raised ALT'')"
    by auto
  from inst have "category_sections ascii_lower (Some (filter (in_taxonomy ascii_lower) sample_analysis)) =
      category_sections ascii_lower (Some sample_analysis)" by blast
  with ev sh ex c f p show ?thesis by simp
qed

text \<open>
  C8. With no file attached the endpoint answers with status 400 and the body
  \<open>{ error: "No file uploaded" }\<close>, and the world is as before: no file written, no
  release called, nothing logged.
\<close>

theorem no_file_uploaded:
  assumes "attached req = None"
  shows "endpoint parse extname now req up w =
           (\<lparr>status = 400, body = Error (Message (js ''No file uploaded''))\<rparr>, w)"
  using assms by (simp add: endpoint_def)

theorem no_file_uploaded_witness:
  \<open>attached \<lparr>attached = None\<rparr> = None \<and>
   endpoint JSON_parse path_extname 1700000000000 \<lparr>attached = None\<rparr>
     (Responded \<lparr>output_parsed = None, output_text = Text (js ''{}'')\<rparr>)
     \<lparr>files = {}, unlink_calls = [], console = []\<rparr> =
   (\<lparr>status = 400, body = Error (Message (js ''No file uploaded''))\<rparr>,
    \<lparr>files = {}, unlink_calls = [], console = []\<rparr>)\<close>
  using no_file_uploaded [where req = \<open>\<lparr>attached = None\<rparr>\<close> and parse = JSON_parse and extname = path_extname
      and now = 1700000000000 and up = \<open>Responded \<lparr>output_parsed = None, output_text = Text (js ''{}'')\<rparr>\<close>
      and w = \<open>\<lparr>files = {}, unlink_calls = [], console = []\<rparr>\<close>]
  by simp

text \<open>
  C9 (as amended). The stored name is the decimal clock reading followed by the original
  extension, or by \<open>.pdf\<close> when the name has none; two uploads whose clock readings
  differ never receive the same stored name. (\<open>extname\<close> is any function that, like
  \<open>path.extname\<close>, returns the empty string or a string that starts with a dot.)
\<close>

theorem stored_name:
  assumes "\<forall>n. extname n = [] \<or> hd (extname n) = DOT"
  shows "(extname originalname \<noteq> [] \<longrightarrow>
            storage_filename extname now originalname = decimal now @ extname originalname) \<and>
         (extname originalname = [] \<longrightarrow>
            storage_filename extname now originalname = decimal now @ js ''.pdf'') \<and>
         (now \<noteq> now' \<longrightarrow>
            storage_filename extname now originalname \<noteq> storage_filename extname now' originalname')"
proof -
  define ext where "ext n = (if extname n = [] then js ''.pdf'' else extname n)" for n
  have name: "storage_filename extname t n = decimal t @ ext n" for t n
    by (simp add: storage_filename_def ext_def Let_def)
  have pdf: "js ''.pdf'' \<noteq> [] \<and> hd (js ''.pdf'') = DOT" by (simp add: js_def)
  have dot: "ext n \<noteq> [] \<and> hd (ext n) = DOT" for n
    using assms pdf unfolding ext_def by (cases "extname n = []") auto
  have "now = now'"
    if "storage_filename extname now originalname = storage_filename extname now' originalname'"
  proof -
    from that have "decimal now @ ext originalname = decimal now' @ ext originalname'"
      by (simp add: name)
    then have "takeWhile is_digit (decimal now @ ext originalname) =
        takeWhile is_digit (decimal now' @ ext originalname')" by simp
    then have "decimal now = decimal now'"
      using dot by (simp add: takeWhile_decimal)
    then show ?thesis by (rule decimal_inj)
  qed
  then show ?thesis
    by (auto simp: name ext_def)
qed

theorem stored_name_witness:
  \<open>(\<forall>n. path_extname n = [] \<or> hd (path_extname n) = DOT) \<and>
   path_extname (js ''report'') = [] \<and>
   storage_filename path_extname 1700000000000 (js ''report'') = js ''1700000000000.pdf'' \<and>
   storage_filename path_extname 1700000000000 (js ''report'') \<noteq>
     storage_filename path_extname 1700000000001 (js ''report'')\<close>
proof -
  have h: "\<forall>n. path_extname n = [] \<or> hd (path_extname n) = DOT"
    using path_extname_dot by blast
  have a: "path_extname (js ''report'') = []" by (simp add: path_extname_def js_def Let_def)
  have c: "js ''1700000000000'' @ js ''.pdf'' = js ''1700000000000.pdf''" by (simp add: js_def)
  have d: "(1700000000000::nat) \<noteq> 1700000000001" by simp
  from stored_name [OF h, of \<open>js ''report''\<close> 1700000000000 1700000000001 \<open>js ''report''\<close>] a d
  have "storage_filename path_extname 1700000000000 (js ''report'') = decimal 1700000000000 @ js ''.pdf''"
    and "storage_filename path_extname 1700000000000 (js ''report'') \<noteq>
     storage_filename path_extname 1700000000001 (js ''report'')"
    by blast+
  then show ?thesis
    using h a c by (simp add: decimal_example)
qed

text \<open>
  The claim as stated fails: the clock reading is the only discriminator, so two uploads
  in the same millisecond with the same extension receive the same stored name.
\<close>

theorem stored_name_counterexample:
  \<open>js ''a.pdf'' \<noteq> js ''b.pdf'' \<and>
   storage_filename path_extname 1700000000000 (js ''a.pdf'') = js ''1700000000000.pdf'' \<and>
   storage_filename path_extname 1700000000000 (js ''b.pdf'') = js ''1700000000000.pdf''\<close>
proof -
  have a: "path_extname (js ''a.pdf'') = js ''.pdf''" by (simp add: path_extname_def js_def Let_def)
  have b: "path_extname (js ''b.pdf'') = js ''.pdf''" by (simp add: path_extname_def js_def Let_def)
  have c: "js ''1700000000000'' @ js ''.pdf'' = js ''1700000000000.pdf''" by (simp add: js_def)
  have d: "js ''.pdf'' \<noteq> []" "js ''a.pdf'' \<noteq> js ''b.pdf''" by (simp_all add: js_def)
  show ?thesis
    using d by (simp add: storage_filename_def a b c decimal_example Let_def)
qed

text \<open>
  C10. When several entries fold to the same taxonomy category, the section shows the
  summary of the last of them, and shows nothing when that summary is absent or empty.
  An entry whose category is absent or the empty string changes nothing.
\<close>

theorem last_entry_wins:
  "(cat \<in> set categoryOrder \<longrightarrow> category e = Some c \<longrightarrow> c \<noteq> [] \<longrightarrow> lower (trim c) = lower cat \<longrightarrow>
      (\<forall>e' \<in> set es'. \<forall>c'. category e' = Some c' \<longrightarrow> c' \<noteq> [] \<longrightarrow> lower (trim c') \<noteq> lower cat) \<longrightarrow>
      ((cat, s) \<in> set (category_sections lower (Some (es @ e # es'))) \<longleftrightarrow>
         summary e = Some s \<and> s \<noteq> [])) \<and>
   (category e = None \<or> category e = Some [] \<longrightarrow>
      category_sections lower (Some (es @ e # es')) = category_sections lower (Some (es @ es')))"
proof -
  have last: "(cat, s) \<in> set (category_sections lower (Some (es @ e # es'))) \<longleftrightarrow>
         summary e = Some s \<and> s \<noteq> []"
    if "cat \<in> set categoryOrder" and "category e = Some c" and "c \<noteq> []"
      and "lower (trim c) = lower cat"
      and "\<forall>e' \<in> set es'. \<forall>c'. category e' = Some c' \<longrightarrow> c' \<noteq> [] \<longrightarrow> lower (trim c') \<noteq> lower cat"
  proof -
    from that(2,3,4) have k: "key_of lower e = Some (lower cat)" by (simp add: key_of_def)
    from that(5) have "\<forall>e' \<in> set es'. key_of lower e' \<noteq> Some (lower cat)"
      by (auto simp: key_of_def split: option.splits if_splits)
    with k have "normalizedCategories lower (es @ e # es') (lower cat) = summary e"
      by (rule normalizedCategories_last)
    with that(1) show ?thesis by (simp add: sections_member)
  qed
  have skip: "category_sections lower (Some (es @ e # es')) = category_sections lower (Some (es @ es'))"
    if "category e = None \<or> category e = Some []"
  proof -
    from that have "key_of lower e = None" by (auto simp: key_of_def)
    then show ?thesis
      by (simp add: category_sections_def normalizedCategories_skip)
  qed
  from last skip show ?thesis by blast
qed

theorem last_entry_wins_witness:
  "js ''Other'' \<in> set categoryOrder \<and>
   ascii_lower (trim (js '' OTHER '')) = ascii_lower (js ''Other'') \<and>
   (js ''Other'', js ''second'') \<in> set (category_sections ascii_lower (Some
      ([\<lparr>category = Some (js ''other''), summary = Some (js ''first'')\<rparr>] @
       \<lparr>category = Some (js '' OTHER ''), summary = Some (js ''second'')\<rparr> #
       [\<lparr>category = Some (js ''Urinalysis''), summary = Some (js ''clear'')\<rparr>]))) \<and>
   category_sections ascii_lower (Some
      ([\<lparr>category = Some (js ''other''), summary = Some (js ''first'')\<rparr>] @
       \<lparr>category = Some [], summary = Some (js ''second'')\<rparr> #
       [\<lparr>category = Some (js ''Urinalysis''), summary = Some (js ''clear'')\<rparr>])) =
   category_sections ascii_lower (Some
      ([\<lparr>category = Some (js ''other''), summary = Some (js ''first'')\<rparr>] @
       [\<lparr>category = Some (js ''Urinalysis''), summary = Some (js ''clear'')\<rparr>]))"
proof -
  have a: "js ''Other'' \<in> set categoryOrder" by (simp add: categoryOrder_def)
  have b: "ascii_lower (trim (js '' OTHER '')) = ascii_lower (js ''Other'')" by code_simp
  have c: "js '' OTHER '' \<noteq> []" by (simp add: js_def)
  have d: "ascii_lower (trim (js ''Urinalysis'')) \<noteq> ascii_lower (js ''Other'')" by code_simp
  have e: "\<forall>e' \<in> set [\<lparr>category = Some (js ''Urinalysis''), summary = Some (js ''clear'')\<rparr>].
      \<forall>c'. category e' = Some c' \<longrightarrow> c' \<noteq> [] \<longrightarrow> ascii_lower (trim c') \<noteq> ascii_lower (js ''Other'')"
    using d by simp
  have f: "js ''second'' \<noteq> []" by (simp add: js_def)
  from last_entry_wins [of "js ''Other''" "\<lparr>category = Some (js '' OTHER ''), summary = Some (js ''second'')\<rparr>"
      "js '' OTHER ''" ascii_lower "[\<lparr>category = Some (js ''Urinalysis''), summary = Some (js ''clear'')\<rparr>]"
      "js ''second''" "[\<lparr>category = Some (js ''other''), summary = Some (js ''first'')\<rparr>]"] a b c e f
  have g: "(js ''Other'', js ''second'') \<in> set (category_sections ascii_lower (Some
      ([\<lparr>category = Some (js ''other''), summary = Some (js ''first'')\<rparr>] @
       \<lparr>category = Some (js '' OTHER ''), summary = Some (js ''second'')\<rparr> #
       [\<lparr>category = Some (js ''Urinalysis''), summary = Some (js ''clear'')\<rparr>])))"
    by simp
  from last_entry_wins [of _ "\<lparr>category = Some [], summary = Some (js ''second'')\<rparr>" _ ascii_lower
      "[\<lparr>category = Some (js ''Urinalysis''), summary = Some (js ''clear'')\<rparr>]" _
      "[\<lparr>category = Some (js ''other''), summary = Some (js ''first'')\<rparr>]"]
  have h: "category_sections ascii_lower (Some
      ([\<lparr>category = Some (js ''other''), summary = Some (js ''first'')\<rparr>] @
       \<lparr>category = Some [], summary = Some (js ''second'')\<rparr> #
       [\<lparr>category = Some (js ''Urinalysis''), summary = Some (js ''clear'')\<rparr>])) =
   category_sections ascii_lower (Some
      ([\<lparr>category = Some (js ''other''), summary = Some (js ''first'')\<rparr>] @
       [\<lparr>category = Some (js ''Urinalysis''), summary = Some (js ''clear'')\<rparr>]))"
    by simp
  from a b g h show ?thesis by blast
qed

end
